theory Spec2Isabelle
  imports Complex_Main "HOL-Library.Word" "HOL-Library.Signed_Division"
begin

unbundle bit_operations_syntax

section \<open>Input sampler (buttons.h, buttons.cpp)\<close>

text \<open>
  The macro \<^verbatim>\<open>DEBOUNCING_RETURN(name, name_state, name_last)\<close> of buttons.h:
  \<^verbatim>\<open>name_state <<= 1; name_state |= name & 0x01;
  name_last = name_state == 0xFFFF ? true : !name_state ? false : name_last;
  return name_last;\<close>
  \<open>name_state\<close> is a \<open>uint16_t\<close>, so the shift drops the oldest sample. The function
  returns the new history register and the new (returned) stable value.
\<close>

definition debouncing_return :: "bool \<Rightarrow> 16 word \<Rightarrow> bool \<Rightarrow> 16 word \<times> bool" where
  "debouncing_return name name_state name_last =
     (let name_state = push_bit 1 name_state;
          name_state = name_state OR (of_bool name AND 0x01);
          name_last = (if name_state = 0xFFFF then True
                       else if name_state = 0 then False else name_last)
      in (name_state, name_last))"

text \<open>
  The private members of class \<open>Buttons\<close>: the raw levels written by the interrupt handler,
  the last reported values and the history registers. (The member \<open>set\<close> is called
  \<open>set_b\<close> here.) The object is a global, so every member starts as zero.
\<close>

record buttons_t =
  up :: bool
  down :: bool
  weather :: bool
  set_b :: bool
  alarm :: bool
  up_last :: bool
  down_last :: bool
  weather_last :: bool
  set_last :: bool
  alarm_last :: bool
  up_state :: "16 word"
  down_state :: "16 word"
  weather_state :: "16 word"
  set_state :: "16 word"
  alarm_state :: "16 word"

definition buttons_zero :: buttons_t where
  "buttons_zero =
     \<lparr>up = False, down = False, weather = False, set_b = False, alarm = False,
      up_last = False, down_last = False, weather_last = False, set_last = False,
      alarm_last = False, up_state = 0, down_state = 0, weather_state = 0, set_state = 0,
      alarm_state = 0\<rparr>"

text \<open>The five poll functions; each returns the reported value and the updated object.\<close>

definition get_up :: "buttons_t \<Rightarrow> bool \<times> buttons_t" where
  "get_up s = (let up_l = up s; (st, l) = debouncing_return up_l (up_state s) (up_last s)
               in (l, s\<lparr>up_state := st, up_last := l\<rparr>))"

definition get_down :: "buttons_t \<Rightarrow> bool \<times> buttons_t" where
  "get_down s = (let down_l = down s; (st, l) = debouncing_return down_l (down_state s) (down_last s)
                 in (l, s\<lparr>down_state := st, down_last := l\<rparr>))"

definition get_weather :: "buttons_t \<Rightarrow> bool \<times> buttons_t" where
  "get_weather s =
     (let weather_l = weather s;
          (st, l) = debouncing_return weather_l (weather_state s) (weather_last s)
      in (l, s\<lparr>weather_state := st, weather_last := l\<rparr>))"

definition get_set :: "buttons_t \<Rightarrow> bool \<times> buttons_t" where
  "get_set s = (let set_l = set_b s; (st, l) = debouncing_return set_l (set_state s) (set_last s)
                in (l, s\<lparr>set_state := st, set_last := l\<rparr>))"

definition get_alarm :: "buttons_t \<Rightarrow> bool \<times> buttons_t" where
  "get_alarm s = (let alarm_l = alarm s; (st, l) = debouncing_return alarm_l (alarm_state s) (alarm_last s)
                  in (l, s\<lparr>alarm_state := st, alarm_last := l\<rparr>))"

text \<open>
  \<open>Buttons::read\<close>, run by the pin-change interrupts: it stores the negated port bit of every
  input whose interrupt group fired (or of all inputs for 255). The port bits are the
  argument \<open>lv\<close> (True: the bit is set), the interrupt group of each pin
  (\<^verbatim>\<open>digitalPinToPCICRbit\<close>, from the board definition) is the argument \<open>pcicr\<close>.
\<close>

datatype input = UP | DOWN | WEATHER | SET | ALARM

definition read :: "(input \<Rightarrow> 8 word) \<Rightarrow> (input \<Rightarrow> bool) \<Rightarrow> 8 word \<Rightarrow> buttons_t \<Rightarrow> buttons_t" where
  "read pcicr lv pcicr_bit s =
     (let s = (if pcicr_bit = pcicr UP \<or> pcicr_bit = 255 then s\<lparr>up := \<not> lv UP\<rparr> else s);
          s = (if pcicr_bit = pcicr DOWN \<or> pcicr_bit = 255 then s\<lparr>down := \<not> lv DOWN\<rparr> else s);
          s = (if pcicr_bit = pcicr WEATHER \<or> pcicr_bit = 255
               then s\<lparr>weather := \<not> lv WEATHER\<rparr> else s);
          s = (if pcicr_bit = pcicr SET \<or> pcicr_bit = 255 then s\<lparr>set_b := \<not> lv SET\<rparr> else s);
          s = (if pcicr_bit = pcicr ALARM \<or> pcicr_bit = 255 then s\<lparr>alarm := \<not> lv ALARM\<rparr> else s)
      in s)"

text \<open>The members of one logical input, and the poll function that belongs to it.\<close>

fun raw_of :: "input \<Rightarrow> buttons_t \<Rightarrow> bool" where
  "raw_of UP s = up s"
| "raw_of DOWN s = down s"
| "raw_of WEATHER s = weather s"
| "raw_of SET s = set_b s"
| "raw_of ALARM s = alarm s"

fun last_of :: "input \<Rightarrow> buttons_t \<Rightarrow> bool" where
  "last_of UP s = up_last s"
| "last_of DOWN s = down_last s"
| "last_of WEATHER s = weather_last s"
| "last_of SET s = set_last s"
| "last_of ALARM s = alarm_last s"

fun state_of :: "input \<Rightarrow> buttons_t \<Rightarrow> 16 word" where
  "state_of UP s = up_state s"
| "state_of DOWN s = down_state s"
| "state_of WEATHER s = weather_state s"
| "state_of SET s = set_state s"
| "state_of ALARM s = alarm_state s"

fun poll :: "input \<Rightarrow> buttons_t \<Rightarrow> bool \<times> buttons_t" where
  "poll UP s = get_up s"
| "poll DOWN s = get_down s"
| "poll WEATHER s = get_weather s"
| "poll SET s = get_set s"
| "poll ALARM s = get_alarm s"

text \<open>
  A run of polls of one input. Before each poll the interrupt handler has run with the port
  bits \<open>lv\<close> of that moment (\<open>read\<close> with 255 stores every input); the run returns the
  reported values in order and the final object.
\<close>

fun poll_run :: "(input \<Rightarrow> 8 word) \<Rightarrow> input \<Rightarrow> (input \<Rightarrow> bool) list \<Rightarrow> buttons_t
    \<Rightarrow> bool list \<times> buttons_t" where
  "poll_run pcicr i [] s = ([], s)"
| "poll_run pcicr i (lv # lvs) s =
     (let (b, s1) = poll i (read pcicr lv 255 s);
          (bs, s2) = poll_run pcicr i lvs s1
      in (b # bs, s2))"

section \<open>Display multiplexer (digits.h, digits.cpp, pins.h)\<close>

text \<open>The tables of pins.h: one bit of the 16-bit shift-register word per anode, cathode and separator.\<close>

definition DIGITS_NUM :: "8 word" where
  "DIGITS_NUM = 4"

definition PINS_ANODES :: "16 word list" where
  "PINS_ANODES = [0x2000, 0x0800, 0x0080, 0x0004]"

definition PINS_NUMBERS :: "16 word list" where
  "PINS_NUMBERS = [0x4000, 0x0001, 0x8000, 0x1000, 0x0400, 0x0200, 0x0040, 0x0008, 0x0020, 0x0002]"

definition PIN_SEPARATOR :: "16 word" where
  "PIN_SEPARATOR = 0x0010"

text \<open>
  The loops \<^verbatim>\<open>for (i = 0; i < N; ++i) mask |= pgm_read_word(&TABLE[i])\<close> of \<open>Digits::write\<close>.
\<close>

fun or_table :: "16 word list \<Rightarrow> nat \<Rightarrow> 16 word \<Rightarrow> 16 word" where
  "or_table tab 0 acc = acc"
| "or_table tab (Suc n) acc = or_table tab n acc OR tab ! n"

text \<open>
  The mask that \<open>Digits::write\<close> builds. pins.h defines \<^verbatim>\<open>ANODES_INVERTED\<close>, so the anode part
  is the inverted branch (the other branch names an undeclared \<^verbatim>\<open>anodes_num\<close> and is never
  compiled). \<^verbatim>\<open>NUMBERS_INVERTED\<close> and \<^verbatim>\<open>SEPARATOR_INVERTED\<close> are commented out in pins.h;
  they are the arguments \<open>numbers_inverted\<close> and \<open>separator_inverted\<close>, False in the
  repository's configuration.
\<close>

definition write_mask :: "bool \<Rightarrow> bool \<Rightarrow> 8 word \<Rightarrow> 8 word \<Rightarrow> bool \<Rightarrow> 16 word" where
  "write_mask numbers_inverted separator_inverted anode number separator =
     (let anode_mask = or_table PINS_ANODES (unat DIGITS_NUM) 0;
          anode_mask = (if anode < DIGITS_NUM
                        then anode_mask AND NOT (PINS_ANODES ! unat anode) else anode_mask);
          numbers_mask =
            (if numbers_inverted
             then (let numbers_mask = or_table PINS_NUMBERS 10 0
                   in if number < 10 then numbers_mask AND NOT (PINS_NUMBERS ! unat number)
                      else numbers_mask)
             else (if number < 10 then PINS_NUMBERS ! unat number else 0));
          mask = anode_mask OR numbers_mask;
          mask = (if separator_inverted
                  then (if separator then mask AND NOT PIN_SEPARATOR else mask OR PIN_SEPARATOR)
                  else mask);
          mask = (if separator then mask OR PIN_SEPARATOR else mask AND NOT PIN_SEPARATOR)
      in mask)"

text \<open>
  \<open>Digits::write\<close> sends the mask over SPI, low byte first, between the two edges of the
  latch pin: the result is the two bytes in the order of transmission. (\<open>write\<close> is a
  keyword of Isabelle, hence the name.)
\<close>

definition digits_write :: "bool \<Rightarrow> bool \<Rightarrow> 8 word \<Rightarrow> 8 word \<Rightarrow> bool \<Rightarrow> 8 word list" where
  "digits_write numbers_inverted separator_inverted anode number separator =
     (let mask = write_mask numbers_inverted separator_inverted anode number separator
      in [ucast (mask AND 0xFF), ucast (drop_bit 8 mask AND 0xFF)])"

text \<open>The members of class \<open>Digits\<close> that the interrupt handler uses.\<close>

record digits_t =
  current_numbers :: "8 word list"
  digit_counter :: "8 word"
  current_separator_state :: bool

text \<open>\<open>Digits::set\<close> (called \<open>set_digits\<close> here) and \<open>Digits::set_separator\<close>.\<close>

definition set_digits :: "8 word \<Rightarrow> 8 word \<Rightarrow> 8 word \<Rightarrow> 8 word \<Rightarrow> digits_t \<Rightarrow> digits_t" where
  "set_digits digit_1 digit_2 digit_3 digit_4 s =
     s\<lparr>current_numbers := (current_numbers s)[0 := digit_1, 1 := digit_2, 2 := digit_3, 3 := digit_4]\<rparr>"

definition set_separator :: "bool \<Rightarrow> digits_t \<Rightarrow> digits_t" where
  "set_separator state s = s\<lparr>current_separator_state := state\<rparr>"

text \<open>
  The state after \<open>Digits::init\<close>: the global object starts as zero and \<open>init\<close> ends with
  \<^verbatim>\<open>set()\<close>, whose default arguments are 255 (all tubes blank).
\<close>

definition digits_init :: digits_t where
  "digits_init =
     set_digits 255 255 255 255
       \<lparr>current_numbers = [0, 0, 0, 0], digit_counter = 0, current_separator_state = False\<rparr>"

text \<open>
  \<open>Digits::isr_callback_handler\<close>, run once per timer tick: it writes the current position and
  advances the counter. The result is the bytes sent and the new state; reading
  \<open>current_numbers\<close> beyond its four elements is undefined in C and is \<open>None\<close> here.
\<close>

definition isr_callback_handler :: "bool \<Rightarrow> bool \<Rightarrow> digits_t \<Rightarrow> (8 word list \<times> digits_t) option" where
  "isr_callback_handler numbers_inverted separator_inverted s =
     (if unat (digit_counter s) < length (current_numbers s)
      then (let sent = digits_write numbers_inverted separator_inverted (digit_counter s)
                         (current_numbers s ! unat (digit_counter s)) (current_separator_state s);
                digit_counter' = digit_counter s + 1;
                digit_counter' = (if digit_counter' = DIGITS_NUM then 0 else digit_counter')
            in Some (sent, s\<lparr>digit_counter := digit_counter'\<rparr>))
      else None)"

text \<open>
  A run of \<open>n\<close> timer ticks: the positions selected (the value of the counter at each tick),
  the bytes sent at each tick, and the final state.
\<close>

fun ticks :: "bool \<Rightarrow> bool \<Rightarrow> nat \<Rightarrow> digits_t \<Rightarrow> (8 word list \<times> 8 word list list \<times> digits_t) option" where
  "ticks ni si 0 s = Some ([], [], s)"
| "ticks ni si (Suc n) s =
     (case isr_callback_handler ni si s of
        None \<Rightarrow> None
      | Some (sent, s1) \<Rightarrow>
          (case ticks ni si n s1 of
             None \<Rightarrow> None
           | Some (ps, sents, s2) \<Rightarrow> Some (digit_counter s # ps, sent # sents, s2)))"

section \<open>Single-precision arithmetic\<close>

text \<open>
  The \<open>float\<close> of the firmware is IEEE 754 binary32. Its finite values are rationals, and
  every operation returns the exact result rounded to the nearest value with a 24-bit
  significand, ties to even: \<open>fl32\<close> is that rounding. \<open>scale_up\<close> counts the doublings that
  bring a value below \<open>2^24\<close> up to at least \<open>2^23\<close>, and stops at 149, the exponent of the
  smallest subnormal; \<open>scale_down\<close> counts the halvings that bring a larger value below
  \<open>2^24\<close>. Overflow to infinity (from \<open>2^128\<close>) is not modelled: no value of the firmware
  comes near it.
\<close>

definition round_half_even :: "rat \<Rightarrow> int" where
  "round_half_even y =
     (let m = \<lfloor>y\<rfloor>; r = y - of_int m
      in if r < 1 / 2 then m else if 1 / 2 < r then m + 1 else if even m then m else m + 1)"

fun scale_up :: "nat \<Rightarrow> rat \<Rightarrow> nat" where
  "scale_up 0 x = 0"
| "scale_up (Suc n) x = (if 2 ^ 23 \<le> x then 0 else Suc (scale_up n (2 * x)))"

fun scale_down :: "nat \<Rightarrow> rat \<Rightarrow> nat" where
  "scale_down 0 x = 0"
| "scale_down (Suc n) x = (if x < 2 ^ 24 then 0 else Suc (scale_down n (x / 2)))"

definition fl32_pos :: "rat \<Rightarrow> rat" where
  "fl32_pos x =
     (if x < 2 ^ 24
      then (let k = scale_up 149 x in of_int (round_half_even (x * 2 ^ k)) / 2 ^ k)
      else (let k = scale_down 104 x in of_int (round_half_even (x / 2 ^ k)) * 2 ^ k))"

definition fl32 :: "rat \<Rightarrow> rat" where
  "fl32 x = (if x < 0 then - fl32_pos (- x) else fl32_pos x)"

text \<open>Conversion of a non-negative \<open>float\<close> to an unsigned integer type truncates.\<close>

definition float_to_u8 :: "rat \<Rightarrow> 8 word" where
  "float_to_u8 x = word_of_int \<lfloor>x\<rfloor>"

definition float_to_u16 :: "rat \<Rightarrow> 16 word" where
  "float_to_u16 x = word_of_int \<lfloor>x\<rfloor>"

section \<open>The millisecond clock\<close>

text \<open>
  \<^verbatim>\<open>millis()\<close> belongs to the Arduino core, not to the repository: it returns an
  \<open>unsigned long\<close>, 32 bits on the ATmega328P, that counts the milliseconds since reset and
  wraps to 0 after \<open>2^32\<close> of them. The firmware stores every reading in a \<open>uint64_t\<close>, so the
  functions below take a reading as a 64-bit word; \<open>millis_reading T\<close> is the reading \<open>T\<close>
  milliseconds after reset.
\<close>

definition millis_reading :: "nat \<Rightarrow> 64 word" where
  "millis_reading T = of_nat (T mod 2 ^ 32)"

section \<open>Voltage regulator (power.h, power.cpp, config.h)\<close>

text \<open>The constants of config.h; the \<open>float\<close> ones are the literals rounded to binary32.\<close>

definition CONVERTER_SOFT_START_TIME :: "64 word" where
  "CONVERTER_SOFT_START_TIME = 1000"

definition VREF_ACTUAL_MV :: rat where
  "VREF_ACTUAL_MV = fl32 (1106 / 1000)"

definition CONVERTER_R_HIGH :: rat where
  "CONVERTER_R_HIGH = fl32 986000"

definition CONVERTER_R_LOW :: rat where
  "CONVERTER_R_LOW = fl32 4270"

definition PID_P_GAIN :: rat where
  "PID_P_GAIN = fl32 85"

definition PID_I_GAIN :: rat where
  "PID_I_GAIN = fl32 (114 / 10)"

definition PID_D_GAIN :: rat where
  "PID_D_GAIN = fl32 0"

definition PID_MIN_OUT :: rat where
  "PID_MIN_OUT = 0"

definition PID_MAX_OUT :: rat where
  "PID_MAX_OUT = 512"

definition PID_MIN_INTEGRAL :: rat where
  "PID_MIN_INTEGRAL = - 1000"

definition PID_MAX_INTEGRAL :: rat where
  "PID_MAX_INTEGRAL = 1000"

text \<open>
  \<^verbatim>\<open>CONVERTER_PERIOD_CYCLES\<close>, computed by the preprocessor from the clock frequency
  \<^verbatim>\<open>F_CPU\<close> of the build, which is the argument \<open>f_cpu\<close>.
\<close>

definition CONVERTER_PERIOD_CYCLES :: "32 word \<Rightarrow> 32 word" where
  "CONVERTER_PERIOD_CYCLES f_cpu = (f_cpu div 100000 * ((1000 * 1000) div 40000)) div 20"

text \<open>
  Modelled from the spec: the class \<open>PetalPID\<close> (lib/PetalPID/src/PetalPID.cpp is not among
  the sources; power.cpp only constructs it and calls \<open>set_min_max_integral\<close> and
  \<open>calculate\<close>). The spec says of it: "runs one PID step with configurable
  proportional/integral/derivative gains, output clamped to [min,max] and integral term
  independently clamped to prevent windup". The step below is the textbook one, in exact
  arithmetic: the error is setpoint minus input, the time step is the difference of the two
  microsecond readings in seconds, the integral accumulates gain times error times time step and
  is clamped to its band, and the sum of the three terms is clamped to the output range.
\<close>

record petal_pid =
  p_gain :: rat
  i_gain :: rat
  d_gain :: rat
  min_out :: rat
  max_out :: rat
  min_integral :: rat
  max_integral :: rat
  integral :: rat
  prev_error :: rat
  time_last :: "32 word"

definition clamp :: "rat \<Rightarrow> rat \<Rightarrow> rat \<Rightarrow> rat" where
  "clamp lo hi x = (if x < lo then lo else if hi < x then hi else x)"

definition PetalPID :: "rat \<Rightarrow> rat \<Rightarrow> rat \<Rightarrow> rat \<Rightarrow> rat \<Rightarrow> petal_pid" where
  "PetalPID p i d mn mx =
     \<lparr>p_gain = p, i_gain = i, d_gain = d, min_out = mn, max_out = mx,
      min_integral = mn, max_integral = mx, integral = 0, prev_error = 0, time_last = 0\<rparr>"

definition set_min_max_integral :: "rat \<Rightarrow> rat \<Rightarrow> petal_pid \<Rightarrow> petal_pid" where
  "set_min_max_integral mn mx pid = pid\<lparr>min_integral := mn, max_integral := mx\<rparr>"

definition calculate :: "rat \<Rightarrow> rat \<Rightarrow> 32 word \<Rightarrow> petal_pid \<Rightarrow> rat \<times> petal_pid" where
  "calculate inp setp time pid =
     (let dt = rat_of_nat (unat (time - time_last pid)) / 1000000;
          err = setp - inp;
          integ = clamp (min_integral pid) (max_integral pid) (integral pid + i_gain pid * err * dt);
          deriv = (if dt = 0 then 0 else d_gain pid * (err - prev_error pid) / dt);
          out = clamp (min_out pid) (max_out pid) (p_gain pid * err + integ + deriv)
      in (out, pid\<lparr>integral := integ, prev_error := err, time_last := time\<rparr>))"

text \<open>
  The members of class \<open>Power\<close>, the compare register \<open>OCR1A\<close> of timer 1, and
  \<open>duty_arg\<close>, which keeps the last argument of \<open>set_duty_cycle\<close> (the register only holds
  its scaled value).
\<close>

record power_t =
  pid :: petal_pid
  voltage :: rat
  setpoint :: "8 word"
  setpoint_temp :: "8 word"
  time_started :: "64 word"
  OCR1A :: "16 word"
  duty_arg :: "16 word"

definition power_set_duty_cycle :: "32 word \<Rightarrow> 16 word \<Rightarrow> power_t \<Rightarrow> power_t" where
  "power_set_duty_cycle f_cpu duty s =
     s\<lparr>OCR1A := ucast (drop_bit 10 (CONVERTER_PERIOD_CYCLES f_cpu * ucast duty)),
       duty_arg := duty\<rparr>"

text \<open>
  The state after \<open>Power::init\<close> (without auto-tuning, which config.h leaves commented out):
  the object is a global, so the members \<open>init\<close> does not write are zero.
\<close>

definition power_init :: "32 word \<Rightarrow> power_t" where
  "power_init f_cpu =
     power_set_duty_cycle f_cpu 0
       \<lparr>pid = set_min_max_integral PID_MIN_INTEGRAL PID_MAX_INTEGRAL
                (PetalPID PID_P_GAIN PID_I_GAIN PID_D_GAIN PID_MIN_OUT PID_MAX_OUT),
        voltage = 0, setpoint = 0, setpoint_temp = 0, time_started = 0, OCR1A = 0,
        duty_arg = 0\<rparr>"

definition set_voltage :: "8 word \<Rightarrow> power_t \<Rightarrow> power_t" where
  "set_voltage v s = s\<lparr>setpoint := v\<rparr>"

definition get_voltage :: "power_t \<Rightarrow> 8 word" where
  "get_voltage s = setpoint s"

text \<open>\<open>Power::measure_voltage\<close>; \<open>adc\<close> is the value that \<^verbatim>\<open>analogRead\<close> returns.\<close>

definition measure_voltage :: "nat \<Rightarrow> power_t \<Rightarrow> power_t" where
  "measure_voltage adc s =
     (let v = fl32 (fl32 (rat_of_nat adc / 1023) * VREF_ACTUAL_MV);
          v = fl32 (v / fl32 (CONVERTER_R_LOW / fl32 (CONVERTER_R_LOW + CONVERTER_R_HIGH)))
      in s\<lparr>voltage := v\<rparr>)"

text \<open>
  \<open>Power::regulate\<close> without \<^verbatim>\<open>PID_AUTO_TUNE\<close>. \<open>adc\<close>, \<open>millis_current\<close> and \<open>micros\<close> are
  what \<^verbatim>\<open>analogRead\<close>, \<^verbatim>\<open>millis()\<close> and \<^verbatim>\<open>micros()\<close> return during the call. The
  subtraction is that of \<open>uint64_t\<close>; the ramp is computed in \<open>float\<close> and stored in a
  \<open>uint8_t\<close>; the output of the controller is converted to the \<open>uint16_t\<close> argument of
  \<open>set_duty_cycle\<close>.
\<close>

definition regulate :: "32 word \<Rightarrow> nat \<Rightarrow> 64 word \<Rightarrow> 32 word \<Rightarrow> power_t \<Rightarrow> power_t" where
  "regulate f_cpu adc millis_current micros s =
     (let s = measure_voltage adc s;
          s = (if time_started s = 0 then s\<lparr>time_started := millis_current\<rparr> else s);
          s = (if millis_current - time_started s > CONVERTER_SOFT_START_TIME
               then s\<lparr>setpoint_temp := setpoint s\<rparr>
               else s\<lparr>setpoint_temp :=
                      float_to_u8 (fl32 (fl32 (rat_of_nat (unat (millis_current - time_started s))
                                               / rat_of_nat (unat CONVERTER_SOFT_START_TIME))
                                         * rat_of_nat (unat (setpoint s))))\<rparr>);
          (out, pid') = calculate (voltage s) (rat_of_nat (unat (setpoint_temp s))) micros (pid s)
      in power_set_duty_cycle f_cpu (float_to_u16 out) (s\<lparr>pid := pid'\<rparr>))"

text \<open>A run of \<open>regulate\<close> calls, one per element \<open>(adc, millis, micros)\<close>; it returns every state passed through.\<close>

fun regulate_run :: "32 word \<Rightarrow> (nat \<times> 64 word \<times> 32 word) list \<Rightarrow> power_t \<Rightarrow> power_t list" where
  "regulate_run f_cpu [] s = []"
| "regulate_run f_cpu ((adc, ms, us) # ins) s =
     (let s1 = regulate f_cpu adc ms us s in s1 # regulate_run f_cpu ins s1)"

section \<open>Tone engine (buzzer.h, buzzer.cpp, config.h)\<close>

definition BUZZER_PWM_START :: "8 word" where
  "BUZZER_PWM_START = 50"

definition BUZZER_PWM_DEVIATION :: "8 word" where
  "BUZZER_PWM_DEVIATION = 40"

definition DECAY_TIME :: "16 word" where
  "DECAY_TIME = 400"

definition NOTE_DURATION_DIVIDERS :: "8 word list" where
  "NOTE_DURATION_DIVIDERS = [1, 2, 2, 2, 4, 8]"

definition NOTE_DURATION_DIVIDERS_N :: "8 word" where
  "NOTE_DURATION_DIVIDERS_N = 6"

definition ALARM_CHIME_NOTES :: "8 word list" where
  "ALARM_CHIME_NOTES = [0, 0, 62, 65, 69, 62, 65, 69, 86, 88, 89, 91, 93, 94, 96, 98]"

definition ALARM_CHIME_NOTES_N :: "8 word" where
  "ALARM_CHIME_NOTES_N = 16"

definition ALARM_CHIME_BPM :: rat where
  "ALARM_CHIME_BPM = fl32 90"

text \<open>
  buzzer.h: the resolution of timer 2 and its prescaler selections. \<^verbatim>\<open>_BV(b)\<close> is \<open>1 << b\<close>;
  the bit numbers \<^verbatim>\<open>CS20\<close>, \<^verbatim>\<open>CS21\<close>, \<^verbatim>\<open>CS22\<close> and \<^verbatim>\<open>WGM22\<close> of register
  \<open>TCCR2B\<close> are 0, 1, 2 and 3 in the ATmega328P register description.
\<close>

definition RESOLUTION :: "32 word" where
  "RESOLUTION = 256"

definition BV :: "nat \<Rightarrow> 8 word" where
  "BV b = push_bit b 1"

definition CS20 :: nat where "CS20 = 0"
definition CS21 :: nat where "CS21 = 1"
definition CS22 :: nat where "CS22 = 2"
definition WGM22 :: nat where "WGM22 = 3"

definition PRESCALER_1 :: "8 word" where "PRESCALER_1 = BV CS20"
definition PRESCALER_8 :: "8 word" where "PRESCALER_8 = BV CS21"
definition PRESCALER_32 :: "8 word" where "PRESCALER_32 = BV CS21 OR BV CS20"
definition PRESCALER_64 :: "8 word" where "PRESCALER_64 = BV CS22"
definition PRESCALER_128 :: "8 word" where "PRESCALER_128 = BV CS22 OR BV CS20"
definition PRESCALER_256 :: "8 word" where "PRESCALER_256 = BV CS22 OR BV CS21"
definition PRESCALER_1024 :: "8 word" where "PRESCALER_1024 = BV CS22 OR BV CS21 OR BV CS20"

text \<open>
  The members of class \<open>Buzzer\<close> and the registers of timer 2 that it writes. Two fields
  are bookkeeping: \<open>duty\<close> keeps the last argument of \<open>set_duty_cycle\<close> (register \<open>OCR2B\<close>
  only holds it scaled by \<open>OCR2A\<close>), and \<open>random_calls\<close> counts the calls of \<^verbatim>\<open>random()\<close>.
  The object is a global, so every member starts as zero.
\<close>

record buzzer_t =
  decay_timer :: "64 word"
  chime_timer :: "64 word"
  chime_note_duration :: "16 word"
  prescaler_bits :: "8 word"
  attack_pwm_value :: "8 word"
  note_last :: "8 word"
  note_duration_divider :: "8 word"
  note_counter :: "8 word"
  TCCR2B :: "8 word"
  OCR2A :: "8 word"
  OCR2B :: "8 word"
  duty :: "8 word"
  random_calls :: nat

definition buzzer_zero :: buzzer_t where
  "buzzer_zero =
     \<lparr>decay_timer = 0, chime_timer = 0, chime_note_duration = 0, prescaler_bits = 0,
      attack_pwm_value = 0, note_last = 0, note_duration_divider = 0, note_counter = 0,
      TCCR2B = 0, OCR2A = 0, OCR2B = 0, duty = 0, random_calls = 0\<rparr>"

text \<open>
  \<open>Buzzer::set_frequency\<close>. Its first statement converts the frequency to timer cycles in
  \<open>float\<close>: \<^verbatim>\<open>uint32_t cycles = (F_CPU / 2000000UL) * (1.e6f / frequency)\<close>; that value is the
  argument \<open>cycles\<close> here. Each test of the chain shifts \<open>cycles\<close> further
  (\<^verbatim>\<open>(cycles >>= 3U) < _RESOLUTION\<close>); when none holds, \<open>prescaler_bits\<close> keeps its value.
  \<open>OCR2A\<close> is an 8-bit register.
\<close>

definition set_frequency :: "32 word \<Rightarrow> buzzer_t \<Rightarrow> buzzer_t" where
  "set_frequency cycles s =
     (let (cycles, s) =
        (if cycles < RESOLUTION then (cycles, s\<lparr>prescaler_bits := PRESCALER_1\<rparr>)
         else let cycles = drop_bit 3 cycles in
         if cycles < RESOLUTION then (cycles, s\<lparr>prescaler_bits := PRESCALER_8\<rparr>)
         else let cycles = drop_bit 2 cycles in
         if cycles < RESOLUTION then (cycles, s\<lparr>prescaler_bits := PRESCALER_32\<rparr>)
         else let cycles = drop_bit 1 cycles in
         if cycles < RESOLUTION then (cycles, s\<lparr>prescaler_bits := PRESCALER_64\<rparr>)
         else let cycles = drop_bit 1 cycles in
         if cycles < RESOLUTION then (cycles, s\<lparr>prescaler_bits := PRESCALER_128\<rparr>)
         else let cycles = drop_bit 1 cycles in
         if cycles < RESOLUTION then (cycles, s\<lparr>prescaler_bits := PRESCALER_256\<rparr>)
         else let cycles = drop_bit 2 cycles in
         if cycles < RESOLUTION then (cycles, s\<lparr>prescaler_bits := PRESCALER_1024\<rparr>)
         else (cycles, s))
      in s\<lparr>TCCR2B := BV WGM22 OR prescaler_bits s, OCR2A := ucast cycles\<rparr>)"

text \<open>
  \<open>Buzzer::set_duty_cycle\<close>: \<^verbatim>\<open>OCR2B = (OCR2A * duty_cycle) >> 8U\<close>, a 16-bit product whose
  high byte goes to the 8-bit register.
\<close>

definition buzzer_set_duty_cycle :: "8 word \<Rightarrow> buzzer_t \<Rightarrow> buzzer_t" where
  "buzzer_set_duty_cycle duty_cycle s =
     s\<lparr>OCR2B := ucast (drop_bit 8 (ucast (OCR2A s) * ucast duty_cycle :: 16 word)),
       duty := duty_cycle\<rparr>"

text \<open>
  \<open>Buzzer::play_note\<close>. The frequency of a note is computed with \<^verbatim>\<open>powf\<close>:
  \<^verbatim>\<open>set_frequency((A_BASE / 32.f) * powf(2.f, ((note_number - 9U) / 12.f)))\<close>. The argument
  \<open>note_cycles\<close> gives, for a note number, the cycle count that \<open>set_frequency\<close> derives from
  that frequency (it depends on \<^verbatim>\<open>F_CPU\<close> and on the library's \<^verbatim>\<open>powf\<close>). \<open>millis\<close> is the
  value of \<^verbatim>\<open>millis()\<close> read at the end of the function.
\<close>

definition play_note :: "(8 word \<Rightarrow> 32 word) \<Rightarrow> 64 word \<Rightarrow> 8 word \<Rightarrow> 8 word \<Rightarrow> buzzer_t \<Rightarrow> buzzer_t" where
  "play_note note_cycles millis note_number pwm s =
     (let s = (if note_number \<noteq> note_last s
               then (let s = (if note_number \<noteq> 0 then set_frequency (note_cycles note_number) s
                              else s)
                     in s\<lparr>note_last := note_number\<rparr>)
               else s);
          s = s\<lparr>attack_pwm_value := (if note_number \<noteq> 0 then pwm else 0)\<rparr>;
          s = buzzer_set_duty_cycle (attack_pwm_value s) s
      in s\<lparr>decay_timer := millis\<rparr>)"

text \<open>
  The function \<^verbatim>\<open>map\<close> of the Arduino core, on \<open>long\<close> values:
  \<^verbatim>\<open>(x - in_min) * (out_max - out_min) / (in_max - in_min) + out_min\<close>, where the division
  truncates towards zero. \<open>decay\<close> calls it with \<open>x\<close> below 400 and \<open>out_min\<close> below 256, so
  no intermediate value leaves the range of \<open>long\<close>.
\<close>

definition map_long :: "int \<Rightarrow> int \<Rightarrow> int \<Rightarrow> int \<Rightarrow> int \<Rightarrow> int" where
  "map_long x in_min in_max out_min out_max =
     (x - in_min) * (out_max - out_min) sdiv (in_max - in_min) + out_min"

text \<open>
  \<open>Buzzer::decay\<close>; \<open>millis_current\<close> is the value of \<^verbatim>\<open>millis()\<close>. The first argument of
  \<^verbatim>\<open>map\<close> is the \<open>uint64_t\<close> difference converted to \<open>long\<close>, its result is stored in a
  \<open>uint8_t\<close>.
\<close>

definition decay :: "64 word \<Rightarrow> buzzer_t \<Rightarrow> buzzer_t" where
  "decay millis_current s =
     (let s = (if decay_timer s > millis_current then s\<lparr>decay_timer := millis_current\<rparr> else s)
      in if decay_timer s \<noteq> 0 \<and> millis_current - decay_timer s \<ge> ucast DECAY_TIME
         then buzzer_set_duty_cycle 0 (s\<lparr>decay_timer := 0\<rparr>)
         else if millis_current - decay_timer s < ucast DECAY_TIME
         then (let duty_cycle = (word_of_int
                       (map_long (sint (ucast (millis_current - decay_timer s) :: 32 word)) 0
                          (uint DECAY_TIME) (uint (attack_pwm_value s)) 0) :: 8 word)
               in buzzer_set_duty_cycle duty_cycle s)
         else s)"

text \<open>
  \<^verbatim>\<open>random()\<close> returns a non-negative \<open>long\<close>. The argument \<open>rnd\<close> of \<open>play_chime\<close> is the
  sequence of values it returns, indexed by the number of earlier calls.
\<close>

definition random :: "(nat \<Rightarrow> nat) \<Rightarrow> buzzer_t \<Rightarrow> nat \<times> buzzer_t" where
  "random rnd s = (rnd (random_calls s), s\<lparr>random_calls := Suc (random_calls s)\<rparr>)"

text \<open>
  \<open>Buzzer::play_chime\<close>; \<open>millis_current\<close> is the value of \<^verbatim>\<open>millis()\<close> read at its start,
  \<open>millis_note\<close> the one read later inside \<open>play_note\<close>. \<open>chime_new_note\<close> is the block
  under the comment \<^verbatim>\<open>// New note\<close>, which runs when the note duration has elapsed. The
  velocity is computed in \<open>int\<close> and stored in the \<open>uint8_t\<close> member; the note duration is
  computed in \<open>float\<close> and stored in the \<open>uint16_t\<close> member.
\<close>

definition chime_new_note :: "(nat \<Rightarrow> nat) \<Rightarrow> (8 word \<Rightarrow> 32 word) \<Rightarrow> 64 word \<Rightarrow> 64 word \<Rightarrow> buzzer_t \<Rightarrow> buzzer_t" where
  "chime_new_note rnd note_cycles millis_current millis_note s =
     (let s = s\<lparr>chime_timer := millis_current\<rparr>;
          (r, s) = random rnd s;
          s = s\<lparr>attack_pwm_value :=
                 word_of_int (uint BUZZER_PWM_START
                   + ((int r mod uint BUZZER_PWM_DEVIATION * 2)
                      - (uint BUZZER_PWM_DEVIATION sdiv 2)))\<rparr>;
          (r, s) = random rnd s;
          s = play_note note_cycles millis_note
                (ALARM_CHIME_NOTES ! (r mod unat ALARM_CHIME_NOTES_N)) (attack_pwm_value s) s;
          s = s\<lparr>note_counter := note_counter s + 1\<rparr>
      in if note_counter s > note_duration_divider s
         then (let (r, s) = random rnd s;
                   s = s\<lparr>note_duration_divider :=
                          NOTE_DURATION_DIVIDERS ! (r mod unat NOTE_DURATION_DIVIDERS_N)\<rparr>;
                   s = s\<lparr>chime_note_duration :=
                          float_to_u16 (fl32 (fl32 (60000 / ALARM_CHIME_BPM)
                            / rat_of_nat (unat (note_duration_divider s))))\<rparr>
               in s\<lparr>note_counter := 0\<rparr>)
         else s)"

definition play_chime :: "(nat \<Rightarrow> nat) \<Rightarrow> (8 word \<Rightarrow> 32 word) \<Rightarrow> 64 word \<Rightarrow> 64 word \<Rightarrow> buzzer_t \<Rightarrow> buzzer_t" where
  "play_chime rnd note_cycles millis_current millis_note s =
     (let s = (if chime_timer s > millis_current then s\<lparr>chime_timer := millis_current\<rparr> else s)
      in if millis_current - chime_timer s \<ge> ucast (chime_note_duration s)
         then chime_new_note rnd note_cycles millis_current millis_note s
         else s)"

text \<open>
  A run of \<open>decay\<close> calls at the given clock readings; it returns the value of \<open>duty\<close> after
  each call.
\<close>

fun decay_run :: "64 word list \<Rightarrow> buzzer_t \<Rightarrow> 8 word list" where
  "decay_run [] s = []"
| "decay_run (t # ts) s = (let s1 = decay t s in duty s1 # decay_run ts s1)"

text \<open>
  A run of \<open>play_chime\<close> calls, one per pair of clock readings; it returns every state passed
  through.
\<close>

fun chime_run :: "(nat \<Rightarrow> nat) \<Rightarrow> (8 word \<Rightarrow> 32 word) \<Rightarrow> (64 word \<times> 64 word) list \<Rightarrow> buzzer_t
    \<Rightarrow> buzzer_t list" where
  "chime_run rnd note_cycles [] s = []"
| "chime_run rnd note_cycles ((t, t') # ts) s =
     (let s1 = play_chime rnd note_cycles t t' s in s1 # chime_run rnd note_cycles ts s1)"

text \<open>
  The notes of a melody alone: the new-note block run once per pair of clock readings, as by
  successive calls of \<open>play_chime\<close> that each find the note duration elapsed.
\<close>

fun new_notes :: "(nat \<Rightarrow> nat) \<Rightarrow> (8 word \<Rightarrow> 32 word) \<Rightarrow> (64 word \<times> 64 word) list \<Rightarrow> buzzer_t
    \<Rightarrow> buzzer_t" where
  "new_notes rnd note_cycles [] s = s"
| "new_notes rnd note_cycles ((t, t') # ts) s =
     new_notes rnd note_cycles ts (chime_new_note rnd note_cycles t t' s)"

section \<open>Properties of the input sampler\<close>

lemma bit_debounce_shift:
  "bit (push_bit 1 st OR (of_bool raw AND 0x01) :: 16 word) n \<longleftrightarrow>
     n < 16 \<and> (if n = 0 then raw else bit st (n - 1))"
  using bit_push_bit_iff [of 1 st n]
  by (auto simp: bit_or_iff bit_and_iff bit_of_bool_iff bit_1_iff dest: bit_imp_le_length)

lemma poll_state: "state_of i (snd (poll i s)) = push_bit 1 (state_of i s) OR (of_bool (raw_of i s) AND 0x01)"
  by (cases i) (simp_all add: get_up_def get_down_def get_weather_def get_set_def get_alarm_def debouncing_return_def Let_def)

lemma poll_result: "fst (poll i s) = (let h = state_of i (snd (poll i s)) in if h = 0xFFFF then True else if h = 0 then False else last_of i s)"
  by (cases i) (simp_all add: get_up_def get_down_def get_weather_def get_set_def get_alarm_def debouncing_return_def Let_def)

lemma poll_last: "last_of i (snd (poll i s)) = fst (poll i s)"
  by (cases i) (simp_all add: get_up_def get_down_def get_weather_def get_set_def get_alarm_def debouncing_return_def Let_def)

lemma read_all_raw: "raw_of i (read pcicr lv 255 s) = (\<not> lv i)"
  by (cases i) (simp_all add: read_def Let_def)

lemma read_state: "state_of i (read pcicr lv b s) = state_of i s"
  by (cases i) (simp_all add: read_def Let_def)

lemma read_last: "last_of i (read pcicr lv b s) = last_of i s"
  by (cases i) (simp_all add: read_def Let_def)

lemma poll_run_Cons:
  "poll_run pcicr i (lv # lvs) s =
     (fst (poll i (read pcicr lv 255 s)) # fst (poll_run pcicr i lvs (snd (poll i (read pcicr lv 255 s)))),
      snd (poll_run pcicr i lvs (snd (poll i (read pcicr lv 255 s)))))"
  by (simp add: Let_def split: prod.splits)

lemma poll_run_length: "length (fst (poll_run pcicr i lvs s)) = length lvs"
  by (induction lvs arbitrary: s) (simp_all add: poll_run_Cons del: poll_run.simps(2))

lemma poll_run_bits:
  "bit (state_of i (snd (poll_run pcicr i lvs s))) n \<longleftrightarrow>
     n < 16 \<and> (if n < length lvs then \<not> (rev lvs ! n) i else bit (state_of i s) (n - length lvs))"
proof (induction lvs arbitrary: s)
  case Nil
  show ?case by (auto dest: bit_imp_le_length)
next
  case (Cons lv lvs)
  let ?s1 = "snd (poll i (read pcicr lv 255 s))"
  have st1: "bit (state_of i ?s1) m \<longleftrightarrow> m < 16 \<and> (if m = 0 then \<not> lv i else bit (state_of i s) (m - 1))" for m
    by (simp only: poll_state read_all_raw read_state bit_debounce_shift)
  show ?case
    unfolding poll_run_Cons snd_conv Cons.IH [of ?s1] st1
    by (auto simp: nth_append)
qed

lemma poll_run_last_of:
  "lvs \<noteq> [] \<Longrightarrow> last_of i (snd (poll_run pcicr i lvs s)) = last (fst (poll_run pcicr i lvs s))"
proof (induction lvs arbitrary: s)
  case Nil
  then show ?case by simp
next
  case (Cons lv lvs)
  show ?case
  proof (cases "lvs = []")
    case True
    then show ?thesis by (simp add: poll_run_Cons poll_last del: poll_run.simps(2))
  next
    case False
    then have "fst (poll_run pcicr i lvs (snd (poll i (read pcicr lv 255 s)))) \<noteq> []"
      using poll_run_length [of pcicr i lvs] by (metis length_0_conv)
    with False Cons.IH show ?thesis
      unfolding poll_run_Cons by simp
  qed
qed

lemma poll_run_snoc:
  "poll_run pcicr i (lvs @ [lv]) s =
     (let s1 = snd (poll_run pcicr i lvs s); p = poll i (read pcicr lv 255 s1)
      in (fst (poll_run pcicr i lvs s) @ [fst p], snd p))"
  by (induction lvs arbitrary: s) (simp_all add: Let_def split: prod.splits)

lemma poll_run_unanimous_state:
  assumes len: "length lvs = 16" and same: "\<forall>lv \<in> set lvs. (\<not> lv i) = b"
  shows "state_of i (snd (poll_run pcicr i lvs s)) = (if b then 0xFFFF else 0)"
proof (rule bit_eqI)
  fix n
  have nth: "(\<not> (rev lvs ! n) i) = b" if "n < 16" for n
  proof -
    from that len have "rev lvs ! n \<in> set lvs"
      by (metis length_rev nth_mem set_rev)
    with same show ?thesis by blast
  qed
  have ones: "(0xFFFF :: 16 word) = - 1" by simp
  show "bit (state_of i (snd (poll_run pcicr i lvs s))) n \<longleftrightarrow> bit (if b then 0xFFFF else 0 :: 16 word) n"
    unfolding poll_run_bits ones using nth [of n] len by (auto simp: bit_simps)
qed

lemma poll_run_unanimous_result:
  assumes len: "length lvs = 16" and same: "\<forall>lv \<in> set lvs. (\<not> lv i) = b"
  shows "last (fst (poll_run pcicr i lvs s)) = b"
proof -
  from len have ne: "lvs \<noteq> []" by auto
  then obtain pre lv where split: "lvs = pre @ [lv]"
    by (metis rev_exhaust)
  let ?s1 = "read pcicr lv 255 (snd (poll_run pcicr i pre s))"
  have fin: "snd (poll_run pcicr i lvs s) = snd (poll i ?s1)"
    and res: "last (fst (poll_run pcicr i lvs s)) = fst (poll i ?s1)"
    unfolding split poll_run_snoc by (simp_all add: Let_def)
  have "state_of i (snd (poll i ?s1)) = (if b then 0xFFFF else 0)"
    using poll_run_unanimous_state [OF len same, of pcicr s] fin by simp
  then have "fst (poll i ?s1) = b"
    by (subst poll_result) (simp add: Let_def)
  with res show ?thesis by simp
qed

text \<open>
  C1. For each of the five inputs, a poll shifts the raw sample into the 16-bit history and
  returns true when the history is all ones, false when it is all zeros, and the previously
  reported value otherwise; the reported value is stored. A history that is neither all ones
  nor all zeros leaves the reported value as it was, and after 16 polls that each saw the
  raw value \<open>b\<close> (whatever the state before them) the history is unanimous and the value
  returned is \<open>b\<close>.
\<close>

theorem debounce_poll:
  "fst (poll i s) =
     (let h = push_bit 1 (state_of i s) OR (of_bool (raw_of i s) AND 0x01)
      in if h = 0xFFFF then True else if h = 0 then False else last_of i s)
   \<and> state_of i (snd (poll i s)) = push_bit 1 (state_of i s) OR (of_bool (raw_of i s) AND 0x01)
   \<and> last_of i (snd (poll i s)) = fst (poll i s)
   \<and> (state_of i (snd (poll i s)) \<noteq> 0xFFFF \<and> state_of i (snd (poll i s)) \<noteq> 0
        \<longrightarrow> fst (poll i s) = last_of i s)
   \<and> (length lvs = 16 \<and> (\<forall>lv \<in> set lvs. (\<not> lv i) = b)
        \<longrightarrow> state_of i (snd (poll_run pcicr i lvs s)) = (if b then 0xFFFF else 0)
          \<and> last (fst (poll_run pcicr i lvs s)) = b)"
proof -
  have step: "fst (poll i s) =
     (let h = push_bit 1 (state_of i s) OR (of_bool (raw_of i s) AND 0x01)
      in if h = 0xFFFF then True else if h = 0 then False else last_of i s)"
    by (subst poll_result) (simp only: poll_state)
  have hold: "fst (poll i s) = last_of i s"
    if "state_of i (snd (poll i s)) \<noteq> 0xFFFF" "state_of i (snd (poll i s)) \<noteq> 0"
    using that by (subst poll_result) (simp add: Let_def)
  show ?thesis
    using step hold poll_state [of i s] poll_last [of i s]
      poll_run_unanimous_state [of lvs i b pcicr s] poll_run_unanimous_result [of lvs i b pcicr s]
    by blast
qed

text \<open>Sixteen polls of the pressed UP button (port bit clear) from the zero state.\<close>

theorem debounce_poll_witness:
  "raw_of UP buttons_zero = False \<and> last_of UP buttons_zero = False
   \<and> length (replicate 16 (\<lambda>_::input. False)) = 16
   \<and> list_all (\<lambda>lv. (\<not> lv UP) = True) (replicate 16 (\<lambda>_::input. False))
   \<and> state_of UP (snd (poll UP buttons_zero)) = 0
   \<and> last (fst (poll_run (\<lambda>_. 2) UP (replicate 16 (\<lambda>_. False)) buttons_zero)) = True
   \<and> state_of UP (snd (poll_run (\<lambda>_. 2) UP (replicate 16 (\<lambda>_. False)) buttons_zero)) = 0xFFFF"
  using debounce_poll [of UP buttons_zero "replicate 16 (\<lambda>_. False)" True "\<lambda>_. 2"]
  by (simp add: buttons_zero_def list_all_iff)

text \<open>The sixteenth sample decides: fifteen set samples after a clear history leave the report unchanged.\<close>

lemma debouncing_return_fifteen: "debouncing_return True 0x3FFF False = (0x7FFF, False)"
  by (simp add: debouncing_return_def)

lemma debouncing_return_sixteen: "debouncing_return True 0x7FFF False = (0xFFFF, True)"
  by (simp add: debouncing_return_def)

section \<open>Properties of the display multiplexer\<close>

lemma counter_cases: "c < (4 :: 8 word) \<Longrightarrow> c = 0 \<or> c = 1 \<or> c = 2 \<or> c = 3"
  by unat_arith

lemma number_cases:
  "d < (10 :: 8 word) \<Longrightarrow> d = 0 \<or> d = 1 \<or> d = 2 \<or> d = 3 \<or> d = 4 \<or> d = 5 \<or> d = 6 \<or> d = 7 \<or> d = 8 \<or> d = 9"
  by unat_arith

lemma or_table_unfold:
  "or_table tab n acc = (if n = 0 then acc else or_table tab (n - 1) acc OR tab ! (n - 1))"
  by (cases n) simp_all

lemma all_anodes: "or_table PINS_ANODES (unat DIGITS_NUM) 0 = 0x2884"
  by (simp add: DIGITS_NUM_def PINS_ANODES_def or_table_unfold)

lemma all_numbers: "or_table PINS_NUMBERS 10 0 = 0xD66B"
  by (simp add: PINS_NUMBERS_def or_table_unfold)


lemma list_update_Cons_numeral:
  "(x # xs)[numeral k := y] = x # xs[pred_numeral k := y]"
  by (simp add: numeral_eq_Suc)

lemmas write_mask_eval = write_mask_def DIGITS_NUM_def PINS_ANODES_def PINS_NUMBERS_def
  PIN_SEPARATOR_def or_table_unfold list_update_Cons_numeral

text \<open>
  Of the four anode bits, the mask has exactly the one of the position written clear (the
  anodes are active low), whatever the digit, the separator and the two polarity settings.
\<close>

lemma write_mask_anode_select:
  assumes "p < 4"
  shows "map (\<lambda>c. write_mask ni si p d sep AND c) PINS_ANODES = PINS_ANODES[unat p := 0]"
proof (cases "d < 10")
  case True
  from counter_cases [OF assms] number_cases [OF True] show ?thesis
    by (elim disjE; cases ni; cases sep; cases si; simp add: write_mask_eval)
next
  case False
  with counter_cases [OF assms] show ?thesis
    by (elim disjE; cases ni; cases sep; cases si; simp add: write_mask_eval)
qed

lemma isr_step:
  assumes "digit_counter s < 4" and "length (current_numbers s) = 4"
  shows "isr_callback_handler ni si s =
           Some (let m = write_mask ni si (digit_counter s)
                           (current_numbers s ! unat (digit_counter s)) (current_separator_state s)
                 in [ucast (m AND 0xFF), ucast (drop_bit 8 m AND 0xFF)],
                 s\<lparr>digit_counter := (if digit_counter s = 3 then 0 else digit_counter s + 1)\<rparr>)"
  using counter_cases [OF assms(1)] assms(2)
  by (auto simp: isr_callback_handler_def digits_write_def DIGITS_NUM_def Let_def)

lemma isr_step_counter:
  assumes "digit_counter s < 4"
  shows "(if digit_counter s = 3 then 0 else digit_counter s + 1) < (4 :: 8 word)"
    and "unat (if digit_counter s = 3 then 0 else digit_counter s + 1) = (unat (digit_counter s) + 1) mod 4"
  using counter_cases [OF assms] by auto

lemma of_nat_mod_4_less: "(of_nat (m mod 4) :: 8 word) < 4"
proof -
  have "m mod 4 < 4" by simp
  then have "m mod 4 = 0 \<or> m mod 4 = 1 \<or> m mod 4 = 2 \<or> m mod 4 = 3" by linarith
  then show ?thesis by (elim disjE) simp_all
qed

lemma unat_of_nat_mod_4: "unat (of_nat (m mod 4) :: 8 word) = m mod 4"
proof -
  have "m mod 4 < 4" by simp
  then have "m mod 4 = 0 \<or> m mod 4 = 1 \<or> m mod 4 = 2 \<or> m mod 4 = 3" by linarith
  then show ?thesis by (elim disjE) simp_all
qed

text \<open>
  A run of ticks, in full: the positions written, the two bytes sent at each tick (the low and
  the high byte of the mask built for that position and the digit requested for it), and the
  state it ends in.
\<close>

lemma ticks_run:
  assumes "digit_counter s < 4" and "length (current_numbers s) = 4"
  shows "ticks ni si n s =
           Some (map (\<lambda>k. of_nat ((unat (digit_counter s) + k) mod 4)) [0..<n],
                 map (\<lambda>k. let m = write_mask ni si (of_nat ((unat (digit_counter s) + k) mod 4))
                                    (current_numbers s ! ((unat (digit_counter s) + k) mod 4))
                                    (current_separator_state s)
                          in [ucast (m AND 0xFF), ucast (drop_bit 8 m AND 0xFF)]) [0..<n],
                 s\<lparr>digit_counter := of_nat ((unat (digit_counter s) + n) mod 4)\<rparr>)"
  using assms
proof (induction n arbitrary: s)
  case 0
  have "(of_nat (unat (digit_counter s) mod 4) :: 8 word) = digit_counter s"
    using counter_cases [OF 0(1)] by auto
  then show ?case by simp
next
  case (Suc n)
  let ?c = "digit_counter s"
  let ?s1 = "s\<lparr>digit_counter := (if ?c = 3 then 0 else ?c + 1)\<rparr>"
  have c1: "digit_counter ?s1 < 4" and l1: "length (current_numbers ?s1) = 4"
    using isr_step_counter(1) [OF Suc.prems(1)] Suc.prems(2) by simp_all
  have u1: "unat (digit_counter ?s1) = (unat ?c + 1) mod 4"
    using isr_step_counter(2) [OF Suc.prems(1)] by simp
  have shift: "(unat (digit_counter ?s1) + k) mod 4 = (unat ?c + Suc k) mod 4" for k
    unfolding u1 by (simp add: mod_add_left_eq)
  have here: "(unat ?c + 0) mod 4 = unat ?c" "(of_nat ((unat ?c + 0) mod 4) :: 8 word) = ?c"
    using counter_cases [OF Suc.prems(1)] by auto
  define b0 where "b0 = (let m = write_mask ni si ?c (current_numbers s ! unat ?c) (current_separator_state s)
                          in [ucast (m AND 0xFF), ucast (drop_bit 8 m AND 0xFF) :: 8 word])"
  define r where "r = ticks ni si n ?s1"
  have step: "isr_callback_handler ni si s = Some (b0, ?s1)"
    unfolding b0_def by (rule isr_step [OF Suc.prems])
  have unfold: "ticks ni si (Suc n) s =
      (case r of None \<Rightarrow> None | Some (ps, sents, s2) \<Rightarrow> Some (?c # ps, b0 # sents, s2))"
    unfolding r_def by (simp add: step)
  have run: "r = Some (map (\<lambda>k. of_nat ((unat ?c + Suc k) mod 4)) [0..<n],
                 map (\<lambda>k. let m = write_mask ni si (of_nat ((unat ?c + Suc k) mod 4))
                                    (current_numbers s ! ((unat ?c + Suc k) mod 4))
                                    (current_separator_state s)
                          in [ucast (m AND 0xFF), ucast (drop_bit 8 m AND 0xFF)]) [0..<n],
                 s\<lparr>digit_counter := of_nat ((unat ?c + Suc n) mod 4)\<rparr>)"
    unfolding r_def using Suc.IH [OF c1 l1, unfolded shift] by simp
  show ?case
    unfolding unfold run map_upt_Suc here b0_def by simp
qed

lemma upt_4: "[0..<4] = [0, 1, 2, 3]"
  by (simp add: upt_conv_Cons numeral_eq_Suc)

lemma round_robin_perm:
  assumes "c < (4 :: 8 word)"
  shows "distinct (map (\<lambda>k. of_nat ((unat c + k) mod 4) :: 8 word) [0..<4])"
    and "set (map (\<lambda>k. of_nat ((unat c + k) mod 4) :: 8 word) [0..<4]) = {0, 1, 2, 3}"
  using counter_cases [OF assms] unfolding upt_4 by auto

lemma setters_keep_counter:
  "digit_counter (set_digits d1 d2 d3 d4 s) = digit_counter s
   \<and> length (current_numbers (set_digits d1 d2 d3 d4 s)) = length (current_numbers s)
   \<and> digit_counter (set_separator b s) = digit_counter s
   \<and> current_numbers (set_separator b s) = current_numbers s"
  by (simp add: set_digits_def set_separator_def)

lemma digits_init_valid: "digit_counter digits_init = 0 \<and> length (current_numbers digits_init) = 4"
  by (simp add: digits_init_def set_digits_def)

text \<open>
  C2. With the position counter \<open>c\<close> in 0..3 (as after \<open>Digits::init\<close>), a timer tick sends
  the low and the high byte of the mask built for position \<open>c\<close> and the digit requested for
  it, a mask in which, of the four anode bits, exactly the one of \<open>c\<close> is clear (the anodes
  are active low); then it advances the counter by one, from 3 back to 0, so that it stays in
  0..3. A run of \<open>n\<close> ticks writes the masks of the positions \<open>c, c + 1, ...\<close> modulo 4 in this
  order, and any four consecutive ticks write each of the four positions exactly once.
\<close>

theorem multiplex_round_robin:
  assumes "digit_counter s < 4" and "length (current_numbers s) = 4"
  shows "isr_callback_handler ni si s =
           Some (let m = write_mask ni si (digit_counter s)
                           (current_numbers s ! unat (digit_counter s)) (current_separator_state s)
                 in [ucast (m AND 0xFF), ucast (drop_bit 8 m AND 0xFF)],
                 s\<lparr>digit_counter := (if digit_counter s = 3 then 0 else digit_counter s + 1)\<rparr>)
         \<and> map (\<lambda>a. write_mask ni si (digit_counter s)
                        (current_numbers s ! unat (digit_counter s)) (current_separator_state s) AND a)
               PINS_ANODES = PINS_ANODES[unat (digit_counter s) := 0]
         \<and> (if digit_counter s = 3 then 0 else digit_counter s + 1) < (4 :: 8 word)
         \<and> ticks ni si n s =
             Some (map (\<lambda>k. of_nat ((unat (digit_counter s) + k) mod 4)) [0..<n],
                   map (\<lambda>k. let m = write_mask ni si (of_nat ((unat (digit_counter s) + k) mod 4))
                                      (current_numbers s ! ((unat (digit_counter s) + k) mod 4))
                                      (current_separator_state s)
                            in [ucast (m AND 0xFF), ucast (drop_bit 8 m AND 0xFF)]) [0..<n],
                   s\<lparr>digit_counter := of_nat ((unat (digit_counter s) + n) mod 4)\<rparr>)
         \<and> (of_nat ((unat (digit_counter s) + n) mod 4) :: 8 word) < 4
         \<and> distinct (map (\<lambda>k. of_nat ((unat (digit_counter s) + k) mod 4) :: 8 word) [0..<4])
         \<and> set (map (\<lambda>k. of_nat ((unat (digit_counter s) + k) mod 4) :: 8 word) [0..<4]) = {0, 1, 2, 3}"
  using isr_step [OF assms, of ni si] write_mask_anode_select [OF assms(1), of ni si]
    isr_step_counter(1) [OF assms(1)] ticks_run [OF assms, of ni si n]
    of_nat_mod_4_less [of "unat (digit_counter s) + n"] round_robin_perm [OF assms(1)]
  by (intro conjI) assumption+

text \<open>
  The digits 1, 2, 3, 4 with the separator on, after initialisation: the first tick sends the
  mask \<open>0x0895\<close> (anodes 1, 2, 3 high, cathode of digit 1, separator), and six ticks send the
  masks of the positions 0, 1, 2, 3, 0, 1.
\<close>

theorem multiplex_round_robin_witness:
  "digit_counter (set_separator True (set_digits 1 2 3 4 digits_init)) < 4
   \<and> length (current_numbers (set_separator True (set_digits 1 2 3 4 digits_init))) = 4
   \<and> isr_callback_handler False False (set_separator True (set_digits 1 2 3 4 digits_init)) =
       Some ([0x95, 0x08],
             (set_separator True (set_digits 1 2 3 4 digits_init))\<lparr>digit_counter := 1\<rparr>)
   \<and> ticks False False 6 (set_separator True (set_digits 1 2 3 4 digits_init)) =
       Some ([0, 1, 2, 3, 0, 1],
             [[0x95, 0x08], [0x94, 0xA0], [0x14, 0x38], [0x90, 0x2C], [0x95, 0x08], [0x94, 0xA0]],
             (set_separator True (set_digits 1 2 3 4 digits_init))\<lparr>digit_counter := 2\<rparr>)"
proof -
  let ?s = "set_separator True (set_digits 1 2 3 4 digits_init)"
  have f: "digit_counter ?s = 0" "current_numbers ?s = [1, 2, 3, 4]" "current_separator_state ?s = True"
    by (simp_all add: set_separator_def set_digits_def digits_init_def)
  have v: "digit_counter ?s < 4" "length (current_numbers ?s) = 4"
    using f by simp_all
  have six: "[0..<6] = [0, 1, 2, 3, 4, 5]"
    by (simp add: upt_conv_Cons numeral_eq_Suc)
  have m: "write_mask False False 0 1 True = 0x0895" "write_mask False False 1 2 True = 0xA094"
    "write_mask False False 2 3 True = 0x3814" "write_mask False False 3 4 True = 0x2C90"
    by (simp_all add: write_mask_eval)
  note t = multiplex_round_robin [OF v, of False False 6, unfolded f six]
  have step: "isr_callback_handler False False ?s = Some ([0x95, 0x08], ?s\<lparr>digit_counter := 1\<rparr>)"
    using t m by (simp add: Let_def)
  have run: "ticks False False 6 ?s =
      Some ([0, 1, 2, 3, 0, 1],
            [[0x95, 0x08], [0x94, 0xA0], [0x14, 0x38], [0x90, 0x2C], [0x95, 0x08], [0x94, 0xA0]],
            ?s\<lparr>digit_counter := 2\<rparr>)"
    using t m by (simp add: Let_def)
  from v step run show ?thesis
    by (intro conjI)
qed

lemma write_mask_digit:
  assumes "p < 4" and "d < 10"
  shows "write_mask False si p d sep =
           (or_table PINS_ANODES 4 0 AND NOT (PINS_ANODES ! unat p))
           OR (if d \<le> 9 then PINS_NUMBERS ! unat d else 0)
           OR (if sep then PIN_SEPARATOR else 0)
         \<and> map (\<lambda>c. write_mask False si p d sep AND c) PINS_ANODES = PINS_ANODES[unat p := 0]
         \<and> map (\<lambda>c. write_mask False si p d sep AND c) PINS_NUMBERS =
             [0, 0, 0, 0, 0, 0, 0, 0, 0, 0][unat d := PINS_NUMBERS ! unat d]
         \<and> write_mask False si p d sep AND PIN_SEPARATOR = (if sep then PIN_SEPARATOR else 0)
         \<and> write_mask False si p d sep AND 0x0100 = 0"
  using counter_cases [OF assms(1)] number_cases [OF assms(2)]
  by (elim disjE; cases sep; cases si; simp add: write_mask_eval)

lemma write_mask_blank:
  assumes "p < 4" and "\<not> d < 10"
  shows "write_mask False si p d sep =
           (or_table PINS_ANODES 4 0 AND NOT (PINS_ANODES ! unat p))
           OR (if d \<le> 9 then PINS_NUMBERS ! unat d else 0)
           OR (if sep then PIN_SEPARATOR else 0)
         \<and> map (\<lambda>c. write_mask False si p d sep AND c) PINS_ANODES = PINS_ANODES[unat p := 0]
         \<and> map (\<lambda>c. write_mask False si p d sep AND c) PINS_NUMBERS =
             [0, 0, 0, 0, 0, 0, 0, 0, 0, 0][unat d := PINS_NUMBERS ! unat d]
         \<and> write_mask False si p d sep AND PIN_SEPARATOR = (if sep then PIN_SEPARATOR else 0)
         \<and> write_mask False si p d sep AND 0x0100 = 0"
proof -
  from assms(2) have nine: "\<not> d \<le> 9" and beyond: "10 \<le> unat d"
    by unat_arith+
  have upd: "[0, 0, 0, 0, 0, 0, 0, 0, 0, 0 :: 16 word][unat d := v] = [0, 0, 0, 0, 0, 0, 0, 0, 0, 0]" for v
    using beyond by (intro list_update_beyond) simp
  from counter_cases [OF assms(1)] show ?thesis
    unfolding upd using assms(2) nine
    by (elim disjE; cases sep; cases si; simp add: write_mask_eval)
qed

text \<open>
  C3. For a position \<open>p\<close> in 0..3 and any requested digit \<open>d\<close>, in the configuration of
  pins.h (anodes inverted, cathodes not), the mask is the OR of all anode bits except the one
  of \<open>p\<close>, the cathode bit of \<open>d\<close> when \<open>d \<le> 9\<close> (none when \<open>d \<ge> 10\<close>) and the separator
  bit when requested. Read back bit by bit: of the anode bits exactly the one of \<open>p\<close> is
  clear, of the cathode bits exactly the one of \<open>d\<close> is set (none for a blank), the separator
  bit is the flag, and the one bit that no table uses is clear.
\<close>

theorem write_mask_truth_table:
  assumes "p < 4"
  shows "write_mask False si p d sep =
           (or_table PINS_ANODES 4 0 AND NOT (PINS_ANODES ! unat p))
           OR (if d \<le> 9 then PINS_NUMBERS ! unat d else 0)
           OR (if sep then PIN_SEPARATOR else 0)
         \<and> map (\<lambda>c. write_mask False si p d sep AND c) PINS_ANODES = PINS_ANODES[unat p := 0]
         \<and> map (\<lambda>c. write_mask False si p d sep AND c) PINS_NUMBERS =
             [0, 0, 0, 0, 0, 0, 0, 0, 0, 0][unat d := PINS_NUMBERS ! unat d]
         \<and> write_mask False si p d sep AND PIN_SEPARATOR = (if sep then PIN_SEPARATOR else 0)
         \<and> write_mask False si p d sep AND 0x0100 = 0"
  using write_mask_digit [OF assms] write_mask_blank [OF assms] by (cases "d < 10") blast+

text \<open>Position 2, digit 7, separator on.\<close>

theorem write_mask_truth_table_witness:
  "(2 :: 8 word) < 4 \<and> write_mask False False 2 7 True = 0x281C
   \<and> map (\<lambda>c. write_mask False False 2 7 True AND c) PINS_ANODES = [0x2000, 0x0800, 0, 0x0004]
   \<and> map (\<lambda>c. write_mask False False 2 7 True AND c) PINS_NUMBERS = [0, 0, 0, 0, 0, 0, 0, 0x0008, 0, 0]"
  using write_mask_truth_table [of 2 False 7 True]
  by (simp add: PINS_ANODES_def PINS_NUMBERS_def PIN_SEPARATOR_def or_table_unfold list_update_Cons_numeral)

lemma separator_overwrite:
  "(if sep then x OR PIN_SEPARATOR else x AND NOT PIN_SEPARATOR) AND PIN_SEPARATOR =
     (if sep then PIN_SEPARATOR else 0)"
  by (simp add: word_bw_assocs word_ao_absorbs)

lemma separator_branch_dead:
  "(if sep then (if sep then x AND NOT s else x OR s) OR s else (if sep then x AND NOT s else x OR s) AND NOT s)
     = (if sep then x OR s else x AND NOT (s :: 16 word))"
  by (auto intro!: bit_eqI simp: bit_simps)

text \<open>
  C10. In every call of \<open>Digits::write\<close> the separator bit of the mask, and of the first byte
  sent, is the requested flag, whether or not \<^verbatim>\<open>SEPARATOR_INVERTED\<close> is defined: the
  assignment after the guarded branch overwrites the bit, so the mask and the bytes sent are
  the same with and without the definition.
\<close>

theorem separator_bit:
  "write_mask ni si a d sep AND PIN_SEPARATOR = (if sep then PIN_SEPARATOR else 0)
   \<and> bit (write_mask ni si a d sep) 4 = sep
   \<and> bit (digits_write ni si a d sep ! 0) 4 = sep
   \<and> write_mask ni True a d sep = write_mask ni False a d sep
   \<and> digits_write ni True a d sep = digits_write ni False a d sep"
proof -
  have dead: "write_mask ni True a d sep = write_mask ni False a d sep"
    by (simp add: write_mask_def Let_def separator_branch_dead)
  have m: "write_mask ni False a d sep AND PIN_SEPARATOR = (if sep then PIN_SEPARATOR else 0)"
    by (simp add: write_mask_def Let_def separator_overwrite)
  have m': "write_mask ni si a d sep AND PIN_SEPARATOR = (if sep then PIN_SEPARATOR else 0)"
    using dead m by (cases si) simp_all
  have "bit (write_mask ni si a d sep AND PIN_SEPARATOR) 4 = sep"
    unfolding m' by (simp add: PIN_SEPARATOR_def)
  then have b: "bit (write_mask ni si a d sep) 4 = sep"
    by (simp add: bit_and_iff PIN_SEPARATOR_def)
  have "bit (digits_write ni si a d sep ! 0) 4 = bit (write_mask ni si a d sep) 4"
    by (simp add: digits_write_def Let_def bit_simps)
  with dead m' b show ?thesis
    by (simp add: digits_write_def)
qed

section \<open>Properties of the single-precision rounding\<close>

lemma round_half_even_of_int: "round_half_even (of_int m) = m"
  by (simp add: round_half_even_def)

lemma round_half_even_error: "\<bar>of_int (round_half_even y) - y\<bar> \<le> 1 / 2"
proof -
  define m where "m = \<lfloor>y\<rfloor>"
  define r where "r = y - of_int m"
  have r: "0 \<le> r" "r < 1"
    unfolding r_def m_def by linarith+
  have y: "y = of_int m + r"
    by (simp add: r_def)
  have rhe: "round_half_even y = (if r < 1 / 2 then m else if 1 / 2 < r then m + 1 else if even m then m else m + 1)"
    unfolding round_half_even_def r_def m_def Let_def by (rule refl)
  have d: "of_int (round_half_even y) - y = of_int (round_half_even y - m) - r"
    by (simp add: r_def)
  consider "r < 1 / 2" | "1 / 2 < r" | "r = 1 / 2" by linarith
  then show ?thesis
  proof cases
    case 1
    with rhe have "round_half_even y - m = 0" by simp
    with 1 r show ?thesis unfolding d by simp
  next
    case 2
    with rhe have "round_half_even y - m = 1" by simp
    with 2 r show ?thesis unfolding d by simp
  next
    case 3
    with rhe have "round_half_even y - m = 0 \<or> round_half_even y - m = 1" by simp
    with 3 show ?thesis unfolding d by auto
  qed
qed

lemma scale_up_done: "2 ^ 23 \<le> x \<Longrightarrow> scale_up n x = 0"
  by (cases n) simp_all

lemma scale_up_range:
  "x < 2 ^ 23 \<Longrightarrow> 2 ^ 23 \<le> x * 2 ^ n
     \<Longrightarrow> 2 ^ 23 \<le> x * 2 ^ scale_up n x \<and> x * 2 ^ scale_up n x < 2 ^ 24"
proof (induction n arbitrary: x)
  case 0
  then show ?case by simp
next
  case (Suc n)
  show ?case
  proof (cases "2 ^ 23 \<le> 2 * x")
    case True
    then have "scale_up n (2 * x) = 0" by (rule scale_up_done)
    with True Suc.prems show ?thesis by simp
  next
    case False
    then have small: "2 * x < 2 ^ 23" by simp
    from Suc.prems(2) have "2 ^ 23 \<le> (2 * x) * 2 ^ n" by (simp add: mult.assoc)
    from Suc.IH [OF small this] Suc.prems(1) show ?thesis
      by (simp add: mult.assoc)
  qed
qed

lemma fl32_pos_of_nat:
  assumes "n < 2 ^ 24"
  shows "fl32_pos (of_nat n) = of_nat n"
proof -
  let ?k = "scale_up 149 (rat_of_nat n)"
  have "rat_of_nat n * 2 ^ ?k = of_int (int n * 2 ^ ?k)" by simp
  then have "round_half_even (rat_of_nat n * 2 ^ ?k) = int n * 2 ^ ?k"
    by (simp only: round_half_even_of_int)
  moreover have "rat_of_nat n < 2 ^ 24"
    using assms by (metis of_nat_less_iff of_nat_numeral of_nat_power)
  ultimately show ?thesis
    by (simp add: fl32_pos_def Let_def)
qed

lemma fl32_of_nat: "n < 2 ^ 24 \<Longrightarrow> fl32 (of_nat n) = of_nat n"
  by (simp add: fl32_def fl32_pos_of_nat)

lemma fl32_pos_error:
  assumes lo: "1 / 2 ^ 126 \<le> x" and hi: "x < 2 ^ 24"
  shows "\<bar>fl32_pos x - x\<bar> \<le> x / 2 ^ 24"
proof -
  let ?k = "scale_up 149 x"
  have "(0 :: rat) < 1 / 2 ^ 126" by simp
  from this lo have pos: "0 < x" by (rule less_le_trans)
  have scaled: "2 ^ 23 \<le> x * 2 ^ ?k"
  proof (cases "2 ^ 23 \<le> x")
    case True
    then show ?thesis by (simp add: scale_up_done)
  next
    case False
    have "(1 / 2 ^ 126) * 2 ^ 149 \<le> x * 2 ^ 149"
      using lo by (rule mult_right_mono) simp
    then have "2 ^ 23 \<le> x * 2 ^ 149" by simp
    with False scale_up_range [of x 149] show ?thesis by simp
  qed
  define p :: rat where "p = 2 ^ ?k"
  define R :: rat where "R = of_int (round_half_even (x * p))"
  have p: "0 < p" by (simp add: p_def)
  have "\<bar>R - x * p\<bar> \<le> 1 / 2"
    unfolding R_def by (rule round_half_even_error)
  also have "1 / 2 \<le> x * p / 2 ^ 24"
    using scaled by (simp add: p_def)
  finally have bound: "\<bar>R - x * p\<bar> \<le> x * p / 2 ^ 24" .
  have "\<bar>R - x * p\<bar> / p \<le> x * p / 2 ^ 24 / p"
    by (rule divide_right_mono [OF bound]) (use p in simp)
  moreover have "\<bar>R - x * p\<bar> / p = \<bar>R / p - x\<bar>"
  proof -
    have "R / p - x = (R - x * p) / p" using p by (simp add: field_simps)
    then show ?thesis using p by (simp add: abs_if field_simps)
  qed
  moreover have "x * p / 2 ^ 24 / p = x / 2 ^ 24"
    using p by simp
  ultimately have "\<bar>R / p - x\<bar> \<le> x / 2 ^ 24"
    by simp
  then have "\<bar>of_int (round_half_even (x * 2 ^ ?k)) / 2 ^ ?k - x\<bar> \<le> x / 2 ^ 24"
    by (simp add: R_def p_def)
  with hi show ?thesis
    by (simp add: fl32_pos_def Let_def)
qed

text \<open>Rules that let the simplifier compute the rounding of a given value.\<close>

lemma scale_up_unfold:
  "scale_up n x = (if n = 0 then 0 else if 2 ^ 23 \<le> x then 0 else Suc (scale_up (n - 1) (2 * x)))"
  by (cases n) simp_all

lemma floor_numeral_div: "\<lfloor>numeral a / numeral b :: rat\<rfloor> = numeral a div numeral b"
  using floor_divide_of_int_eq [of "numeral a" "numeral b", where ?'a = rat] by simp

lemmas fl32_eval = fl32_def fl32_pos_def scale_up_unfold round_half_even_def Let_def
  float_to_u8_def float_to_u16_def floor_numeral_div

section \<open>Properties of the voltage regulator\<close>

lemma regulate_time_started:
  "time_started (regulate f_cpu adc now us s) = (if time_started s = 0 then now else time_started s)"
  by (simp add: regulate_def measure_voltage_def power_set_duty_cycle_def Let_def split: prod.splits)

lemma regulate_setpoint: "setpoint (regulate f_cpu adc now us s) = setpoint s"
  by (simp add: regulate_def measure_voltage_def power_set_duty_cycle_def Let_def split: prod.splits)

lemma regulate_setpoint_temp:
  "setpoint_temp (regulate f_cpu adc now us s) =
     (let d = now - (if time_started s = 0 then now else time_started s)
      in if d > 1000 then setpoint s
         else float_to_u8 (fl32 (fl32 (rat_of_nat (unat d) / 1000) * rat_of_nat (unat (setpoint s)))))"
  by (simp add: regulate_def measure_voltage_def power_set_duty_cycle_def Let_def
      CONVERTER_SOFT_START_TIME_def split: prod.splits)

lemma fl32_nonneg: "0 \<le> x \<Longrightarrow> fl32 x = fl32_pos x"
  by (simp add: fl32_def)

lemma soft_start_ramp:
  assumes d: "d \<le> 1000" and sp: "sp \<le> 255"
  shows "\<exists>F. \<lfloor>fl32 (fl32 (rat_of_nat d / 1000) * rat_of_nat sp)\<rfloor> = int F
           \<and> 1000 * F \<le> d * sp \<and> d * sp \<le> 1000 * F + 1000"
proof (cases "d = 0 \<or> sp = 0")
  case True
  have zero: "fl32 0 = 0" using fl32_of_nat [of 0] by simp
  from True have "fl32 (fl32 (rat_of_nat d / 1000) * rat_of_nat sp) = 0"
    by (auto simp: zero)
  with True show ?thesis by auto
next
  case False
  then have d1: "1 \<le> d" and sp1: "1 \<le> sp" by auto
  define x :: rat where "x = rat_of_nat d / 1000"
  define q where "q = fl32 x"
  define E :: rat where "E = x * rat_of_nat sp"
  define y where "y = q * rat_of_nat sp"
  define r where "r = fl32 y"
  define e :: rat where "e = 1 / 2 ^ 24"
  have x_lo: "1 / 1000 \<le> x" and x_hi: "x \<le> 1"
    using d d1 by (simp_all add: x_def)
  have spr: "1 \<le> rat_of_nat sp" "rat_of_nat sp \<le> 255"
    using sp sp1 by simp_all
  have "\<bar>fl32_pos x - x\<bar> \<le> x / 2 ^ 24"
    by (rule fl32_pos_error) (use x_lo x_hi in simp_all)
  moreover have "x / 2 ^ 24 \<le> e"
    using x_hi by (simp add: e_def)
  moreover have "0 \<le> x" using x_lo by simp
  ultimately have q_err: "\<bar>q - x\<bar> \<le> e"
    by (simp add: q_def fl32_nonneg)
  have "\<bar>y - E\<bar> = \<bar>q - x\<bar> * rat_of_nat sp"
    by (simp add: y_def E_def abs_mult left_diff_distrib [symmetric])
  also have "\<dots> \<le> e * 255"
    using q_err spr by (intro mult_mono) (simp_all add: e_def)
  finally have y_err: "\<bar>y - E\<bar> \<le> 255 * e" by simp
  have E_lo: "1 / 1000 \<le> E" and E_hi: "E \<le> 255"
  proof -
    have "1 / 1000 * 1 \<le> x * rat_of_nat sp"
      using x_lo spr by (intro mult_mono) simp_all
    then show "1 / 1000 \<le> E" by (simp add: E_def)
    have "x * rat_of_nat sp \<le> 1 * 255"
      using x_lo x_hi spr by (intro mult_mono) simp_all
    then show "E \<le> 255" by (simp add: E_def)
  qed
  have e_val: "e = 1 / 16777216" by (simp add: e_def)
  have tiny: "(1 :: rat) / 2 ^ 126 \<le> 1 / 2000" by simp
  have y_lo': "1 / 2000 \<le> y" and y_pos: "0 \<le> y" and y_hi: "y \<le> 256"
    using y_err E_lo E_hi unfolding e_val by linarith+
  have y_lo: "1 / 2 ^ 126 \<le> y"
    using tiny y_lo' by (rule order_trans)
  have "\<bar>fl32_pos y - y\<bar> \<le> y / 2 ^ 24"
    by (rule fl32_pos_error) (use y_lo y_hi in simp_all)
  moreover have "y / 2 ^ 24 \<le> 256 * e"
    using y_hi by (simp add: e_def)
  ultimately have r_err: "\<bar>r - y\<bar> \<le> 256 * e"
    using y_pos by (simp add: r_def fl32_nonneg)
  have r_lo: "E - 511 * e \<le> r" and r_hi: "r \<le> E + 511 * e"
    using r_err y_err by linarith+
  have small: "511 * e < 1 / 1000" by (simp add: e_def)
  have r_pos: "0 \<le> r" using r_lo E_lo small by linarith
  define F where "F = nat \<lfloor>r\<rfloor>"
  have F: "\<lfloor>r\<rfloor> = int F" using r_pos by (simp add: F_def)
  have "rat_of_int \<lfloor>r\<rfloor> \<le> r" and "r < rat_of_int \<lfloor>r\<rfloor> + 1"
    by linarith+
  then have Fr: "rat_of_nat F \<le> r" "r < rat_of_nat F + 1"
    unfolding F by simp_all
  have E1000: "1000 * E = rat_of_nat (d * sp)"
    by (simp add: E_def x_def)
  have "1000 * rat_of_nat F < rat_of_nat (d * sp) + 1"
    using Fr(1) r_hi small E1000 by linarith
  then have "rat_of_nat (1000 * F) < rat_of_nat (d * sp + 1)" by simp
  then have up: "1000 * F < d * sp + 1" by (simp only: of_nat_less_iff)
  have "rat_of_nat (d * sp) < 1000 * rat_of_nat F + 1001"
    using Fr(2) r_lo small E1000 by linarith
  then have "rat_of_nat (d * sp) < rat_of_nat (1000 * F + 1001)" by simp
  then have dn: "d * sp < 1000 * F + 1001" by (simp only: of_nat_less_iff)
  from F up dn show ?thesis
    unfolding r_def y_def q_def x_def by auto
qed

text \<open>
  The value stored by the ramp branch, as a number: at most the exact \<open>d * sp / 1000\<close>
  and at most one below it.
\<close>

lemma ramp_value:
  assumes "unat d \<le> 1000"
  shows "1000 * unat (float_to_u8 (fl32 (fl32 (rat_of_nat (unat d) / 1000) * rat_of_nat (unat (sp :: 8 word)))))
           \<le> unat (d :: 64 word) * unat sp
         \<and> unat d * unat sp
           \<le> 1000 * unat (float_to_u8 (fl32 (fl32 (rat_of_nat (unat d) / 1000) * rat_of_nat (unat sp)))) + 1000"
proof -
  have sp: "unat sp \<le> 255"
    using unsigned_less [of sp, where ?'a = nat] by simp
  from soft_start_ramp [OF assms sp] obtain F where
    F: "\<lfloor>fl32 (fl32 (rat_of_nat (unat d) / 1000) * rat_of_nat (unat sp))\<rfloor> = int F"
    and lo: "1000 * F \<le> unat d * unat sp" and hi: "unat d * unat sp \<le> 1000 * F + 1000"
    by blast
  have "unat d * unat sp \<le> 1000 * 255"
    using assms sp by (rule mult_le_mono)
  with lo have "F < 256" by linarith
  then have "unat (float_to_u8 (fl32 (fl32 (rat_of_nat (unat d) / 1000) * rat_of_nat (unat sp)))) = F"
    unfolding float_to_u8_def F by (simp add: unat_of_nat take_bit_nat_eq_self)
  with lo hi show ?thesis by simp
qed

lemma ramp_zero: "float_to_u8 (fl32 (fl32 (rat_of_nat 0 / 1000) * rat_of_nat n)) = 0"
  using fl32_of_nat [of 0] by (simp add: float_to_u8_def)

lemma ramp_full: "float_to_u8 (fl32 (fl32 (rat_of_nat 1000 / 1000) * rat_of_nat (unat (sp :: 8 word)))) = sp"
proof -
  have "unat sp < 2 ^ 24"
    using unsigned_less [of sp, where ?'a = nat] by simp
  then have "fl32 (rat_of_nat (unat sp)) = rat_of_nat (unat sp)"
    by (rule fl32_of_nat)
  moreover have "fl32 1 = 1" using fl32_of_nat [of 1] by simp
  ultimately have "fl32 (fl32 (rat_of_nat 1000 / 1000) * rat_of_nat (unat sp)) = rat_of_nat (unat sp)"
    by simp
  moreover have "word_of_int \<lfloor>rat_of_nat (unat sp)\<rfloor> = sp"
    unfolding floor_of_nat by simp
  ultimately show ?thesis
    by (simp only: float_to_u8_def)
qed

lemma ramp_500_180: "float_to_u8 (fl32 (fl32 (rat_of_nat 500 / 1000) * rat_of_nat 180)) = 90"
  by (simp add: fl32_eval)

text \<open>The truncated value can be one below the exact quotient: 650 * 180 / 1000 is 117.\<close>

lemma ramp_650_180: "float_to_u8 (fl32 (fl32 (rat_of_nat 650 / 1000) * rat_of_nat 180)) = 116"
  by (simp add: fl32_eval)

text \<open>
  Every state of a run has the time of the first call whose clock reading was not zero, and
  its ramped setpoint is computed from the difference to that time.
\<close>

lemma regulate_run_nth:
  assumes "(if time_started s = 0 then fst (snd (hd calls)) else time_started s) = ts"
    and "ts \<noteq> 0" and "i < length calls" and "calls ! i = (adc, ms, us)"
  shows "time_started (regulate_run f_cpu calls s ! i) = ts
         \<and> setpoint (regulate_run f_cpu calls s ! i) = setpoint s
         \<and> setpoint_temp (regulate_run f_cpu calls s ! i) =
             (if ms - ts > 1000 then setpoint s
              else float_to_u8 (fl32 (fl32 (rat_of_nat (unat (ms - ts)) / 1000)
                     * rat_of_nat (unat (setpoint s)))))"
  using assms
proof (induction calls arbitrary: s i)
  case Nil
  then show ?case by simp
next
  case (Cons c calls)
  obtain adc0 ms0 us0 where c: "c = (adc0, ms0, us0)"
    by (cases c) auto
  let ?s1 = "regulate f_cpu adc0 ms0 us0 s"
  have ts1: "time_started ?s1 = ts"
    using Cons.prems(1) unfolding c by (simp add: regulate_time_started split: if_splits)
  show ?case
  proof (cases i)
    case 0
    with Cons.prems(4) c have "ms = ms0" by simp
    with 0 ts1 Cons.prems(1) show ?thesis
      by (simp add: c regulate_setpoint regulate_setpoint_temp Let_def split: if_splits)
  next
    case (Suc j)
    have start: "(if time_started ?s1 = 0 then fst (snd (hd calls)) else time_started ?s1) = ts"
      using ts1 Cons.prems(2) by simp
    from Suc Cons.prems(3,4) have j: "j < length calls" "calls ! j = (adc, ms, us)"
      by simp_all
    from Cons.IH [OF start Cons.prems(2) j] Suc show ?thesis
      by (simp add: c regulate_setpoint Let_def)
  qed
qed

text \<open>
  What \<open>regulate\<close> computes, in terms of the clock readings. \<open>time_started = 0\<close> means that
  the soft start has not begun. In a run of calls that begins with a call at a reading
  \<open>now0\<close> other than 0, the call made at the reading \<open>ms\<close> keeps the start time \<open>now0\<close> and
  the target, and takes \<open>t\<close>, the 64-bit difference \<open>ms - now0\<close> of the two readings: for
  \<open>t > 1000\<close> the ramped setpoint is the target, otherwise it is the single-precision value of
  \<open>t / 1000 * target\<close> truncated to 8 bits, which is at most the exact \<open>t * target / 1000\<close> and
  at most one below it (0 for \<open>t = 0\<close>, the target for \<open>t = 1000\<close>, 90 for \<open>t = 500\<close> and the
  target 180).
\<close>

lemma soft_start_run:
  assumes "time_started s = 0" and "fst (snd (hd calls)) = now0" and "now0 \<noteq> 0"
    and "i < length calls" and "calls ! i = (adc, ms, us)"
  shows "let s' = regulate_run f_cpu calls s ! i; t = unat (ms - now0)
         in time_started s' = now0
            \<and> setpoint s' = setpoint s
            \<and> (1000 < t \<longrightarrow> setpoint_temp s' = setpoint s)
            \<and> (t \<le> 1000 \<longrightarrow>
                  1000 * unat (setpoint_temp s') \<le> t * unat (setpoint s)
                  \<and> t * unat (setpoint s) \<le> 1000 * unat (setpoint_temp s') + 1000)
            \<and> (t = 0 \<longrightarrow> setpoint_temp s' = 0)
            \<and> (t = 1000 \<longrightarrow> setpoint_temp s' = setpoint s)
            \<and> (t = 500 \<and> setpoint s = 180 \<longrightarrow> setpoint_temp s' = 90)"
proof -
  let ?s' = "regulate_run f_cpu calls s ! i"
  let ?t = "unat (ms - now0)"
  have start: "(if time_started s = 0 then fst (snd (hd calls)) else time_started s) = now0"
    using assms(1,2) by simp
  from regulate_run_nth [OF start assms(3,4,5), of f_cpu]
  have ts: "time_started ?s' = now0" and sp: "setpoint ?s' = setpoint s"
    and temp: "setpoint_temp ?s' =
      (if ms - now0 > 1000 then setpoint s
       else float_to_u8 (fl32 (fl32 (rat_of_nat ?t / 1000) * rat_of_nat (unat (setpoint s)))))"
    by blast+
  have gt: "ms - now0 > 1000 \<longleftrightarrow> 1000 < ?t"
    by (simp add: word_less_nat_alt)
  have late: "setpoint_temp ?s' = setpoint s" if "1000 < ?t"
    using that temp gt by simp
  have ramp: "setpoint_temp ?s' =
      float_to_u8 (fl32 (fl32 (rat_of_nat ?t / 1000) * rat_of_nat (unat (setpoint s))))" if "?t \<le> 1000"
    using that temp gt by simp
  have bounds: "1000 * unat (setpoint_temp ?s') \<le> ?t * unat (setpoint s)
      \<and> ?t * unat (setpoint s) \<le> 1000 * unat (setpoint_temp ?s') + 1000" if "?t \<le> 1000"
    using ramp_value [OF that, of "setpoint s"] ramp [OF that] by simp
  have zero: "setpoint_temp ?s' = 0" if "?t = 0"
    using ramp that ramp_zero [of "unat (setpoint s)"] by simp
  have full: "setpoint_temp ?s' = setpoint s" if "?t = 1000"
    using ramp that ramp_full [of "setpoint s"] by simp
  have mid: "setpoint_temp ?s' = 90" if "?t = 500" "setpoint s = 180"
    using ramp that ramp_500_180 by simp
  show ?thesis
    unfolding Let_def using ts sp late bounds zero full mid by blast
qed

text \<open>
  As long as the clock has not wrapped since the first call, the difference of the readings is
  the elapsed time, and the ramped setpoint is what the claim says: with the first call \<open>T0\<close>
  milliseconds after reset (\<open>T0 > 0\<close>: \<open>Power::init\<close> waits 100 ms before the first call) and
  a call \<open>t\<close> milliseconds later, \<open>T0 + t < 2^32\<close>.
\<close>

lemma millis_difference:
  assumes "T0 + t < 2 ^ 32"
  shows "unat (millis_reading (T0 + t) - millis_reading T0) = t"
proof -
  from assms have "T0 < 2 ^ 32" by simp
  with assms have "millis_reading (T0 + t) - millis_reading T0 = of_nat t"
    by (simp add: millis_reading_def)
  moreover from assms have "t < 2 ^ 64"
    by (rule_tac less_trans [of _ "2 ^ 32"]) simp_all
  ultimately show ?thesis
    by (simp add: unat_of_nat take_bit_nat_eq_self)
qed

lemma millis_nonzero:
  assumes "0 < T0" and "T0 < 2 ^ 32"
  shows "millis_reading T0 \<noteq> 0"
proof -
  from assms(2) have "T0 < 2 ^ 64"
    by (rule less_trans) simp
  then have "unat (of_nat T0 :: 64 word) = T0"
    by (simp add: unat_of_nat take_bit_nat_eq_self)
  with assms show ?thesis
    by (auto simp: millis_reading_def)
qed

lemma soft_start_before_wrap:
  assumes "time_started s = 0" and "0 < T0" and "T0 + t < 2 ^ 32"
    and "fst (snd (hd calls)) = millis_reading T0"
    and "i < length calls" and "calls ! i = (adc, millis_reading (T0 + t), us)"
  shows "(1000 < t \<longrightarrow> setpoint_temp (regulate_run f_cpu calls s ! i) = setpoint s)
         \<and> (t \<le> 1000 \<longrightarrow>
               1000 * unat (setpoint_temp (regulate_run f_cpu calls s ! i)) \<le> t * unat (setpoint s)
               \<and> t * unat (setpoint s) \<le> 1000 * unat (setpoint_temp (regulate_run f_cpu calls s ! i)) + 1000)
         \<and> (t = 0 \<longrightarrow> setpoint_temp (regulate_run f_cpu calls s ! i) = 0)
         \<and> (t = 1000 \<longrightarrow> setpoint_temp (regulate_run f_cpu calls s ! i) = setpoint s)
         \<and> (t = 500 \<and> setpoint s = 180 \<longrightarrow> setpoint_temp (regulate_run f_cpu calls s ! i) = 90)"
proof -
  from assms(3) have "T0 < 2 ^ 32" by simp
  with assms(2) have nz: "millis_reading T0 \<noteq> 0" by (rule millis_nonzero)
  from soft_start_run [OF assms(1) assms(4) nz assms(5) assms(6), of f_cpu]
  show ?thesis
    unfolding Let_def millis_difference [OF assms(3)] by blast
qed

text \<open>
  C4. The claim: for every call of \<open>regulate\<close> at elapsed time \<open>t\<close> since the first call, the
  ramped setpoint is \<open>t / 1000\<close> of the target while \<open>t \<le> 1000\<close> ms and exactly the target
  afterwards (0, about 90 and 180 at 0, 500 and at least 1000 ms for the target 180). The code
  meets it until the 32-bit clock has wrapped and reads the recorded start time again: then
  the difference of the readings is back in 0..1000 and the ramp runs a second time. With the
  target 180 and the first call 150 ms after reset, the calls 0, 500, 1000 and 4850 ms later
  give 0, 90, 180 and 180; the call \<open>2^32 - 50\<close> ms later (reading 100) still gives 180, but
  the calls \<open>2^32\<close> and \<open>2^32 + 500\<close> ms later give 0 and 90, and only the call
  \<open>2^32 + 1001\<close> ms later gives 180 again.
\<close>

theorem soft_start_after_wrap:
  "map setpoint_temp (regulate_run 16000000
      [(512, millis_reading 150, 7), (512, millis_reading (150 + 500), 8), (512, millis_reading (150 + 1000), 9),
       (512, millis_reading (150 + 4850), 10), (512, millis_reading (150 + 4294967246), 11),
       (512, millis_reading (150 + 4294967296), 12), (512, millis_reading (150 + 4294967796), 13),
       (512, millis_reading (150 + 4294968297), 14)]
      (set_voltage 180 (power_init 16000000))) = [0, 90, 180, 180, 180, 0, 90, 180]"
  by (simp add: regulate_setpoint_temp regulate_time_started regulate_setpoint set_voltage_def
      power_init_def power_set_duty_cycle_def millis_reading_def ramp_500_180 [simplified]
      ramp_zero [of 180, simplified] ramp_full [of 180, simplified] Let_def)

lemma clamp_bounds: "lo \<le> hi \<Longrightarrow> lo \<le> clamp lo hi x \<and> clamp lo hi x \<le> hi"
  by (simp add: clamp_def)

lemma calculate_limits:
  "min_out (snd (calculate inp setp time p)) = min_out p
   \<and> max_out (snd (calculate inp setp time p)) = max_out p
   \<and> min_integral (snd (calculate inp setp time p)) = min_integral p
   \<and> max_integral (snd (calculate inp setp time p)) = max_integral p"
  by (simp add: calculate_def Let_def)

lemma calculate_bounds:
  assumes "min_out p \<le> max_out p" and "min_integral p \<le> max_integral p"
  shows "min_out p \<le> fst (calculate inp setp time p) \<and> fst (calculate inp setp time p) \<le> max_out p
         \<and> min_integral p \<le> integral (snd (calculate inp setp time p))
         \<and> integral (snd (calculate inp setp time p)) \<le> max_integral p"
  using clamp_bounds [OF assms(1)] clamp_bounds [OF assms(2)]
  by (simp add: calculate_def Let_def)

lemma regulate_pid:
  "pid (regulate f_cpu adc now us s) =
     snd (calculate (voltage (measure_voltage adc s))
            (rat_of_nat (unat (setpoint_temp (regulate f_cpu adc now us s)))) us (pid s))"
  by (simp add: regulate_def measure_voltage_def power_set_duty_cycle_def Let_def split: prod.splits)

lemma regulate_duty_arg:
  "duty_arg (regulate f_cpu adc now us s) =
     float_to_u16 (fst (calculate (voltage (measure_voltage adc s))
            (rat_of_nat (unat (setpoint_temp (regulate f_cpu adc now us s)))) us (pid s)))"
  by (simp add: regulate_def measure_voltage_def power_set_duty_cycle_def Let_def split: prod.splits)

lemma float_to_u16_bounded:
  assumes "0 \<le> x" and "x \<le> 512"
  shows "unat (float_to_u16 x) \<le> 512"
proof -
  define k where "k = \<lfloor>x\<rfloor>"
  have k: "0 \<le> k" "k \<le> 512"
    unfolding k_def using assms by (simp_all add: floor_le_iff)
  define n where "n = nat k"
  from k have n: "k = int n" "n \<le> 512"
    unfolding n_def by simp_all
  then have "unat (word_of_int k :: 16 word) = n"
    by (simp add: unat_of_nat take_bit_nat_eq_self)
  with n show ?thesis
    unfolding float_to_u16_def k_def [symmetric] by simp
qed

lemma regulate_step_bounds:
  assumes "min_out (pid s) = PID_MIN_OUT" and "max_out (pid s) = PID_MAX_OUT"
    and "min_integral (pid s) = PID_MIN_INTEGRAL" and "max_integral (pid s) = PID_MAX_INTEGRAL"
  shows "min_out (pid (regulate f_cpu adc now us s)) = PID_MIN_OUT
         \<and> max_out (pid (regulate f_cpu adc now us s)) = PID_MAX_OUT
         \<and> min_integral (pid (regulate f_cpu adc now us s)) = PID_MIN_INTEGRAL
         \<and> max_integral (pid (regulate f_cpu adc now us s)) = PID_MAX_INTEGRAL
         \<and> unat (duty_arg (regulate f_cpu adc now us s)) \<le> 512
         \<and> - 1000 \<le> integral (pid (regulate f_cpu adc now us s))
         \<and> integral (pid (regulate f_cpu adc now us s)) \<le> 1000"
proof -
  let ?c = "calculate (voltage (measure_voltage adc s))
              (rat_of_nat (unat (setpoint_temp (regulate f_cpu adc now us s)))) us (pid s)"
  have o: "min_out (pid s) \<le> max_out (pid s)" and i: "min_integral (pid s) \<le> max_integral (pid s)"
    using assms by (simp_all add: PID_MIN_OUT_def PID_MAX_OUT_def PID_MIN_INTEGRAL_def PID_MAX_INTEGRAL_def)
  from calculate_bounds [OF o i, of "voltage (measure_voltage adc s)"
      "rat_of_nat (unat (setpoint_temp (regulate f_cpu adc now us s)))" us] assms
  have out: "0 \<le> fst ?c" "fst ?c \<le> 512" and int: "- 1000 \<le> integral (snd ?c)" "integral (snd ?c) \<le> 1000"
    by (simp_all add: PID_MIN_OUT_def PID_MAX_OUT_def PID_MIN_INTEGRAL_def PID_MAX_INTEGRAL_def)
  show ?thesis
    unfolding regulate_pid regulate_duty_arg
    using calculate_limits [of "voltage (measure_voltage adc s)"
        "rat_of_nat (unat (setpoint_temp (regulate f_cpu adc now us s)))" us "pid s"]
      assms float_to_u16_bounded [OF out] int
    by simp
qed

text \<open>
  C5. Spec-modelled controller. In every state that a run of \<open>regulate\<close> calls passes through,
  whatever the measured values and clock readings, the argument given to \<open>set_duty_cycle\<close> is
  at most 512 (and, being unsigned, at least 0), and the integral term lies in
  \<open>[-1000, 1000]\<close>; the run starts from any state whose controller has the limits that
  \<open>Power::init\<close> sets.
\<close>

theorem pid_bounds:
  assumes "min_out (pid s) = PID_MIN_OUT" and "max_out (pid s) = PID_MAX_OUT"
    and "min_integral (pid s) = PID_MIN_INTEGRAL" and "max_integral (pid s) = PID_MAX_INTEGRAL"
    and "s' \<in> set (regulate_run f_cpu calls s)"
  shows "unat (duty_arg s') \<le> 512 \<and> PID_MIN_INTEGRAL \<le> integral (pid s')
         \<and> integral (pid s') \<le> PID_MAX_INTEGRAL"
  using assms
proof (induction calls arbitrary: s)
  case Nil
  then show ?case by simp
next
  case (Cons c calls)
  obtain adc ms us where c: "c = (adc, ms, us)"
    by (cases c) auto
  let ?s1 = "regulate f_cpu adc ms us s"
  note step = regulate_step_bounds [OF Cons.prems(1-4), of f_cpu adc ms us]
  from Cons.prems(5) have "s' = ?s1 \<or> s' \<in> set (regulate_run f_cpu calls ?s1)"
    by (simp add: c Let_def)
  then show ?case
  proof
    assume "s' = ?s1"
    with step show ?thesis
      by (simp add: PID_MIN_INTEGRAL_def PID_MAX_INTEGRAL_def)
  next
    assume "s' \<in> set (regulate_run f_cpu calls ?s1)"
    with Cons.IH [of ?s1] step show ?thesis
      by blast
  qed
qed

text \<open>The state after initialisation, target 180, and two calls with the converter input at full scale.\<close>

theorem pid_bounds_witness:
  "min_out (pid (set_voltage 180 (power_init 16000000))) = PID_MIN_OUT
   \<and> max_out (pid (set_voltage 180 (power_init 16000000))) = PID_MAX_OUT
   \<and> min_integral (pid (set_voltage 180 (power_init 16000000))) = PID_MIN_INTEGRAL
   \<and> max_integral (pid (set_voltage 180 (power_init 16000000))) = PID_MAX_INTEGRAL
   \<and> unat (duty_arg (last (regulate_run 16000000 [(1023, 150, 7), (1023, 151, 1200)]
                 (set_voltage 180 (power_init 16000000))))) \<le> 512
   \<and> PID_MIN_INTEGRAL \<le> integral (pid (last (regulate_run 16000000 [(1023, 150, 7), (1023, 151, 1200)]
                 (set_voltage 180 (power_init 16000000)))))
   \<and> integral (pid (last (regulate_run 16000000 [(1023, 150, 7), (1023, 151, 1200)]
                 (set_voltage 180 (power_init 16000000))))) \<le> PID_MAX_INTEGRAL"
proof -
  let ?s = "set_voltage 180 (power_init 16000000)"
  let ?calls = "[(1023, 150, 7), (1023, 151, 1200)] :: (nat \<times> 64 word \<times> 32 word) list"
  have lim: "min_out (pid ?s) = PID_MIN_OUT" "max_out (pid ?s) = PID_MAX_OUT"
    "min_integral (pid ?s) = PID_MIN_INTEGRAL" "max_integral (pid ?s) = PID_MAX_INTEGRAL"
    by (simp_all add: set_voltage_def power_init_def power_set_duty_cycle_def PetalPID_def
        set_min_max_integral_def)
  have mem: "last (regulate_run 16000000 ?calls ?s) \<in> set (regulate_run 16000000 ?calls ?s)"
    by (rule last_in_set) (simp add: Let_def)
  note b = pid_bounds [OF lim mem]
  show ?thesis
    by (intro conjI) (rule lim b [THEN conjunct1] b [THEN conjunct2, THEN conjunct1]
        b [THEN conjunct2, THEN conjunct2])+
qed

section \<open>Properties of the tone engine\<close>

text \<open>The value that \<open>decay\<close> computes with \<^verbatim>\<open>map\<close>: the attack value minus the truncated part decayed.\<close>

lemma map_long_decay:
  assumes "0 \<le> x" and "0 \<le> a"
  shows "map_long x 0 400 a 0 = a - (x * a) div 400"
proof -
  have "0 \<le> x * a" using assms by simp
  then have "(- (x * a)) sdiv 400 = - ((x * a) div 400)"
    by (cases "x * a = 0") (auto simp: signed_divide_int_def sgn_if)
  then show ?thesis
    by (simp add: map_long_def)
qed

lemma decay_value:
  assumes "d < 400"
  shows "(word_of_int (map_long (sint (ucast (d :: 64 word) :: 32 word)) 0 (uint DECAY_TIME)
            (uint (a :: 8 word)) 0) :: 8 word) = of_nat (unat a - (unat d * unat a) div 400)"
proof -
  from assms have d: "unat d < 400"
    by (simp add: word_less_nat_alt)
  from assms have "uint d < 400"
    by (simp add: word_less_def)
  then have hi: "uint d < 2 ^ 31"
    by simp
  have lo: "- (2 ^ 31) \<le> uint d"
    by (rule order_trans [of _ 0]) simp_all
  have "signed_take_bit 31 (uint d) = uint d"
    using lo hi by (rule signed_take_bit_int_eq_self)
  then have x: "sint (ucast d :: 32 word) = uint d"
    by (simp add: signed_ucast_eq)
  have le: "(unat d * unat a) div 400 \<le> unat a"
  proof -
    have "unat d * unat a \<le> 400 * unat a"
      using d by (intro mult_le_mono1) simp
    then have "(unat d * unat a) div 400 \<le> (400 * unat a) div 400"
      by (rule div_le_mono)
    then show ?thesis by simp
  qed
  have "map_long (uint d) 0 400 (uint a) 0 = uint a - (uint d * uint a) div 400"
    by (rule map_long_decay) simp_all
  also have "\<dots> = int (unat a) - (int (unat d) * int (unat a)) div 400"
    by (simp only: uint_nat)
  also have "\<dots> = int (unat a - (unat d * unat a) div 400)"
    using le by (simp only: of_nat_diff zdiv_int of_nat_mult of_nat_numeral)
  finally have "map_long (uint d) 0 400 (uint a) 0 = int (unat a - (unat d * unat a) div 400)" .
  moreover have "uint DECAY_TIME = 400"
    by (simp add: DECAY_TIME_def)
  ultimately show ?thesis
    unfolding x by (simp only: of_int_of_nat_eq)
qed

lemma set_duty_cycle_fields:
  "duty (buzzer_set_duty_cycle x s) = x"
  "decay_timer (buzzer_set_duty_cycle x s) = decay_timer s"
  "attack_pwm_value (buzzer_set_duty_cycle x s) = attack_pwm_value s"
  by (simp_all add: buzzer_set_duty_cycle_def)

text \<open>A duty cycle of 0 clears the compare register, whatever the TOP value.\<close>

lemma set_duty_cycle_zero: "OCR2B (buzzer_set_duty_cycle 0 s) = 0"
  by (simp add: buzzer_set_duty_cycle_def)

text \<open>The four ways a call of \<open>decay\<close> can go.\<close>

lemma decay_resync:
  assumes "decay_timer s > now"
  shows "decay now s = buzzer_set_duty_cycle (attack_pwm_value s) (s\<lparr>decay_timer := now\<rparr>)"
proof -
  have "(word_of_int (map_long (sint (ucast (0 :: 64 word) :: 32 word)) 0 (uint DECAY_TIME)
            (uint (attack_pwm_value s)) 0) :: 8 word) = attack_pwm_value s"
    by (subst decay_value) simp_all
  with assms show ?thesis
    by (simp add: decay_def Let_def DECAY_TIME_def)
qed

lemma decay_ramp:
  assumes "decay_timer s \<le> now" and "now - decay_timer s < 400"
  shows "decay now s =
           buzzer_set_duty_cycle
             (of_nat (unat (attack_pwm_value s)
                - (unat (now - decay_timer s) * unat (attack_pwm_value s)) div 400)) s"
proof -
  from assms(1) have "\<not> decay_timer s > now" by simp
  moreover from assms(2) have "\<not> 400 \<le> now - decay_timer s" by simp
  ultimately show ?thesis
    using assms(2) decay_value [OF assms(2), of "attack_pwm_value s"]
    by (simp add: decay_def Let_def DECAY_TIME_def)
qed

lemma decay_expire:
  assumes "decay_timer s \<le> now" and "decay_timer s \<noteq> 0" and "400 \<le> now - decay_timer s"
  shows "decay now s = buzzer_set_duty_cycle 0 (s\<lparr>decay_timer := 0\<rparr>)"
proof -
  from assms(1) have "\<not> decay_timer s > now" by simp
  with assms(2,3) show ?thesis
    by (simp add: decay_def Let_def DECAY_TIME_def)
qed

lemma decay_idle:
  assumes "decay_timer s = 0" and "400 \<le> now"
  shows "decay now s = s"
proof -
  from assms(2) have "\<not> now < 400" by simp
  with assms show ?thesis
    by (simp add: decay_def Let_def DECAY_TIME_def)
qed

lemma decay_run_idle:
  assumes "decay_timer s = 0" and "duty s = 0" and "\<forall>t \<in> set ts. 400 \<le> t"
  shows "decay_run ts s = map (\<lambda>t. 0) ts"
  using assms by (induction ts) (simp_all add: decay_idle Let_def)

lemma decay_run_armed:
  assumes "decay_timer s = t0" and "t0 \<noteq> 0" and "attack_pwm_value s = v" and "sorted (t0 # ts)"
  shows "decay_run ts s =
           map (\<lambda>t. if t - t0 < 400 then of_nat (unat v - (unat (t - t0) * unat v) div 400) else 0) ts"
  using assms
proof (induction ts arbitrary: s)
  case Nil
  then show ?case by simp
next
  case (Cons t ts)
  from Cons.prems(4) have le: "t0 \<le> t" and later: "\<forall>t' \<in> set ts. t \<le> t'"
    and sorted': "sorted (t0 # ts)"
    by auto
  show ?case
  proof (cases "t - t0 < 400")
    case True
    let ?s1 = "decay t s"
    have s1: "?s1 = buzzer_set_duty_cycle (of_nat (unat v - (unat (t - t0) * unat v) div 400)) s"
      using decay_ramp [of s t] le True Cons.prems(1,3) by simp
    then have "decay_timer ?s1 = t0" "attack_pwm_value ?s1 = v"
      "duty ?s1 = of_nat (unat v - (unat (t - t0) * unat v) div 400)"
      using Cons.prems(1,3) by (simp_all add: buzzer_set_duty_cycle_def)
    with Cons.IH [of ?s1] Cons.prems(2) sorted' True show ?thesis
      by (simp add: Let_def)
  next
    case False
    then have ge: "400 \<le> t - t0" by simp
    let ?s1 = "decay t s"
    have s1: "?s1 = buzzer_set_duty_cycle 0 (s\<lparr>decay_timer := 0\<rparr>)"
      using decay_expire [of s t] le ge Cons.prems(1,2) by simp
    then have idle: "decay_timer ?s1 = 0" "duty ?s1 = 0"
      by (simp_all add: buzzer_set_duty_cycle_def)
    have far: "400 \<le> t' - t0 \<and> 400 \<le> t'" if "t' \<in> set ts" for t'
    proof -
      from that later have "t \<le> t'" by blast
      with le ge show ?thesis by unat_arith
    qed
    then have "\<forall>t' \<in> set ts. 400 \<le> t'" by blast
    from decay_run_idle [OF idle this] have "decay_run ts ?s1 = map (\<lambda>t. 0) ts" .
    also have "\<dots> = map (\<lambda>t. if t - t0 < 400 then of_nat (unat v - (unat (t - t0) * unat v) div 400) else 0) ts"
      using far by (intro map_cong) (auto simp: not_less [symmetric])
    finally show ?thesis
      using False idle by (simp add: Let_def)
  qed
qed

lemma play_note_fields:
  "decay_timer (play_note nc now n v s) = now
   \<and> attack_pwm_value (play_note nc now n v s) = (if n \<noteq> 0 then v else 0)
   \<and> duty (play_note nc now n v s) = (if n \<noteq> 0 then v else 0)"
  by (simp add: play_note_def buzzer_set_duty_cycle_def set_frequency_def Let_def split: prod.splits)

text \<open>
  The decayed value is the linear interpolation from the attack value down to 0 over 400 ms,
  rounded up to a whole number.
\<close>

lemma decay_interpolation:
  assumes "x < 400"
  shows "a * (400 - x) \<le> 400 * (a - (x * a) div 400)
         \<and> 400 * (a - (x * a) div 400) < a * (400 - x) + (400 :: nat)"
proof -
  have le: "(x * a) div 400 \<le> a"
  proof -
    have "x * a \<le> 400 * a" using assms by (intro mult_le_mono1) simp
    then have "(x * a) div 400 \<le> (400 * a) div 400" by (rule div_le_mono)
    then show ?thesis by simp
  qed
  have m: "400 * ((x * a) div 400) \<le> x * a" "x * a < 400 * ((x * a) div 400) + 400"
    using div_mult_mod_eq [of "x * a" 400] mod_less_divisor [of 400 "x * a"] by linarith+
  have e1: "a * (400 - x) = 400 * a - x * a"
    by (simp add: diff_mult_distrib2 mult.commute)
  have e2: "400 * (a - (x * a) div 400) = 400 * a - 400 * ((x * a) div 400)"
    by (simp add: diff_mult_distrib2)
  have "x * a \<le> 400 * a" using assms by (intro mult_le_mono1) simp
  with m le show ?thesis unfolding e1 e2 by linarith
qed

text \<open>
  What a run of \<open>decay\<close> calls computes, in terms of the clock readings. \<open>decay\<close> takes
  \<open>decay_timer = 0\<close> to mean that no note is decaying. After \<open>play_note(n, v)\<close> with \<open>n\<close> not
  zero, called at a clock reading \<open>t0\<close> that is not zero, a run of \<open>decay\<close> calls at readings
  that do not decrease from \<open>t0\<close> on leaves, after the call at reading \<open>t\<close>, the duty cycle at
  \<open>v\<close> minus the truncated \<open>(t - t0) * v / 400\<close> while \<open>t - t0 < 400\<close>, and at 0 afterwards.
\<close>

lemma decay_after_note:
  assumes "n \<noteq> 0" and "t0 \<noteq> 0" and "sorted (t0 # ts)"
  shows "duty (play_note nc t0 n v s) = v
         \<and> decay_run ts (play_note nc t0 n v s) =
             map (\<lambda>t. if t - t0 < 400 then of_nat (unat v - (unat (t - t0) * unat v) div 400) else 0) ts"
proof -
  have f: "decay_timer (play_note nc t0 n v s) = t0" "attack_pwm_value (play_note nc t0 n v s) = v"
    "duty (play_note nc t0 n v s) = v"
    using play_note_fields [of nc t0 n v s] assms(1) by simp_all
  from decay_run_armed [OF f(1) assms(2) f(2) assms(3)] f(3) show ?thesis
    by simp
qed

text \<open>
  The first call 400 ms or more after the note start clears the compare register and the
  timer, which disarms the decay; a disarmed call at a reading of 400 or more changes nothing.
\<close>

lemma decay_disarms:
  assumes "decay_timer s \<le> now" and "decay_timer s \<noteq> 0" and "400 \<le> now - decay_timer s"
  shows "decay_timer (decay now s) = 0 \<and> duty (decay now s) = 0 \<and> OCR2B (decay now s) = 0
         \<and> (400 \<le> later \<longrightarrow> decay later (decay now s) = decay now s)"
proof -
  have t: "decay_timer (decay now s) = 0"
    unfolding decay_expire [OF assms] by (simp add: set_duty_cycle_fields)
  have "duty (decay now s) = 0" "OCR2B (decay now s) = 0"
    unfolding decay_expire [OF assms] by (simp_all add: set_duty_cycle_fields set_duty_cycle_zero)
  with t decay_idle [of "decay now s" later] show ?thesis
    by simp
qed

text \<open>
  As long as the clock has not wrapped, the difference of the readings is the elapsed time:
  after a note started \<open>T0\<close> milliseconds after reset (\<open>T0 > 0\<close>), \<open>decay\<close> calls at elapsed
  times \<open>ts\<close> since the note start, in order and all before the wrap, give the duty cycles of
  the claim.
\<close>

lemma millis_reading_unat:
  assumes "T < 2 ^ 32"
  shows "unat (millis_reading T) = T"
proof -
  from assms have "T < 2 ^ 64"
    by (rule less_trans) simp
  with assms show ?thesis
    by (simp add: millis_reading_def unat_of_nat take_bit_nat_eq_self)
qed

lemma millis_reading_mono:
  assumes "a \<le> b" and "b < 2 ^ 32"
  shows "millis_reading a \<le> millis_reading b"
proof -
  from assms have "a < 2 ^ 32" by simp
  with assms show ?thesis
    by (simp add: word_le_nat_alt millis_reading_unat)
qed

lemma decay_before_wrap:
  assumes "n \<noteq> 0" and "0 < T0" and "sorted ts" and "\<forall>t \<in> set ts. T0 + t < 2 ^ 32"
  shows "decay_run (map (\<lambda>t. millis_reading (T0 + t)) ts) (play_note nc (millis_reading T0) n v s) =
           map (\<lambda>t. if t < 400 then of_nat (unat v - (t * unat v) div 400) else 0) ts"
proof (cases ts)
  case Nil
  then show ?thesis by simp
next
  case (Cons t0 ts')
  with assms(4) have "T0 + t0 < 2 ^ 32" by simp
  then have T0: "T0 < 2 ^ 32" by simp
  with assms(2) have nz: "millis_reading T0 \<noteq> 0"
    by (rule millis_nonzero)
  have first: "millis_reading T0 \<le> millis_reading (T0 + t)" if "t \<in> set ts" for t
    using that assms(4) by (intro millis_reading_mono) simp_all
  have "sorted_wrt (\<lambda>x y. millis_reading (T0 + x) \<le> millis_reading (T0 + y)) ts"
  proof (rule sorted_wrt_mono_rel [of ts "(\<le>)"])
    fix x y assume "x \<in> set ts" "y \<in> set ts" "x \<le> y"
    with assms(4) show "millis_reading (T0 + x) \<le> millis_reading (T0 + y)"
      by (intro millis_reading_mono) simp_all
  next
    from assms(3) show "sorted_wrt (\<le>) ts" .
  qed
  then have "sorted (map (\<lambda>t. millis_reading (T0 + t)) ts)"
    by (simp only: sorted_map)
  with first have srt: "sorted (millis_reading T0 # map (\<lambda>t. millis_reading (T0 + t)) ts)"
    by auto
  have elapsed: "(millis_reading (T0 + t) - millis_reading T0 < 400) = (t < 400)
      \<and> unat (millis_reading (T0 + t) - millis_reading T0) = t" if "t \<in> set ts" for t
  proof -
    from that assms(4) have "T0 + t < 2 ^ 32" by blast
    then have "unat (millis_reading (T0 + t) - millis_reading T0) = t"
      by (rule millis_difference)
    then show ?thesis
      by (simp add: word_less_nat_alt)
  qed
  from decay_after_note [OF assms(1) nz srt, of nc v s]
  have "decay_run (map (\<lambda>t. millis_reading (T0 + t)) ts) (play_note nc (millis_reading T0) n v s) =
          map (\<lambda>r. if r - millis_reading T0 < 400
                    then of_nat (unat v - (unat (r - millis_reading T0) * unat v) div 400) else 0)
              (map (\<lambda>t. millis_reading (T0 + t)) ts)"
    by (rule conjunct2)
  also have "\<dots> = map (\<lambda>t. if t < 400 then of_nat (unat v - (t * unat v) div 400) else 0) ts"
    unfolding map_map using elapsed by (intro map_cong) (simp_all add: o_def)
  finally show ?thesis .
qed

text \<open>The note 69 with velocity 100 at the clock reading 1000, then \<open>decay\<close> 0, 200, 400 and 401 ms later.\<close>

lemma decay_after_note_example:
  "decay_run (map (\<lambda>t. millis_reading (1000 + t)) [0, 200, 400, 401])
     (play_note (\<lambda>_. 1000) (millis_reading 1000) 69 100 buzzer_zero) = [100, 50, 0, 0]"
  using decay_before_wrap [of 69 1000 "[0, 200, 400, 401]" "\<lambda>_. 1000" 100 buzzer_zero]
  by simp

text \<open>
  C6. The claim: after \<open>play_note(n, v)\<close> with \<open>n\<close> not zero, \<open>decay\<close> sets the duty cycle to
  the interpolation from \<open>v\<close> down to 0 while less than 400 ms have elapsed, forces it to 0
  then, and once disarmed never sets a duty cycle other than 0 until the next \<open>play_note\<close>.
  The code breaks the last part. It marks "disarmed" with \<open>decay_timer = 0\<close>, and the branch
  under \<^verbatim>\<open>// Decaying\<close> does not test the mark, so a disarmed \<open>decay\<close> that reads a clock below
  400, as it does after the 32-bit clock has wrapped, computes the elapsed time from 0 and
  writes an interpolated duty cycle; from the reading 400 on nothing forces it back to 0.
  The note 69 with velocity 100 is played \<open>2^32 - 1000\<close> ms after reset and \<open>decay\<close> is called
  0, 200, 400 and 401 ms later: 100, 50, 0, 0, as the claim says. No other note is played.
  The calls 1005, 1100, 1399, 1400 and 1401 ms after the note start (readings 5, 100, 399, 400
  and 401) give 99, 75, 1, 1 and 1.
\<close>

theorem decay_rearms_after_wrap:
  "decay_run (map (\<lambda>t. millis_reading (4294966296 + t)) [0, 200, 400, 401, 1005, 1100, 1399, 1400, 1401])
     (play_note (\<lambda>_. 1000) (millis_reading 4294966296) 69 100 buzzer_zero)
   = [100, 50, 0, 0, 99, 75, 1, 1, 1]"
proof -
  have r: "map (\<lambda>t. millis_reading (4294966296 + t)) [0, 200, 400, 401, 1005, 1100, 1399, 1400, 1401]
           = [4294966296, 4294966496, 4294966696, 4294966697, 5, 100, 399, 400, 401]"
    and r0: "millis_reading 4294966296 = 4294966296"
    by (simp_all add: millis_reading_def)
  let ?p = "play_note (\<lambda>_. 1000) 4294966296 69 100 buzzer_zero"
  have f: "decay_timer ?p = 4294966296" "attack_pwm_value ?p = 100"
    using play_note_fields [of "\<lambda>_. 1000" 4294966296 69 100 buzzer_zero] by simp_all
  let ?sa = "buzzer_set_duty_cycle 100 ?p"
  have d0: "decay 4294966296 ?p = ?sa"
    using decay_ramp [of ?p 4294966296] f by simp
  have f0: "decay_timer ?sa = 4294966296" "attack_pwm_value ?sa = 100"
    using f by (simp_all add: set_duty_cycle_fields)
  let ?sb = "buzzer_set_duty_cycle 50 ?sa"
  have d1: "decay 4294966496 ?sa = ?sb"
    using decay_ramp [of ?sa 4294966496] f0 by simp
  have f1: "decay_timer ?sb = 4294966296" "attack_pwm_value ?sb = 100"
    using f0 by (simp_all add: set_duty_cycle_fields)
  let ?sc = "buzzer_set_duty_cycle 0 (?sb\<lparr>decay_timer := 0\<rparr>)"
  have d2: "decay 4294966696 ?sb = ?sc"
    using decay_expire [of ?sb 4294966696] f1 by simp
  have f2: "decay_timer ?sc = 0" "attack_pwm_value ?sc = 100"
    using f1 by (simp_all add: set_duty_cycle_fields)
  have d3: "decay 4294966697 ?sc = ?sc"
    using decay_idle [of ?sc 4294966697] f2 by simp
  let ?sd = "buzzer_set_duty_cycle 99 ?sc"
  have d4: "decay 5 ?sc = ?sd"
    using decay_ramp [of ?sc 5] f2 by simp
  have f3: "decay_timer ?sd = 0" "attack_pwm_value ?sd = 100"
    using f2 by (simp_all add: set_duty_cycle_fields)
  let ?se = "buzzer_set_duty_cycle 75 ?sd"
  have d5: "decay 100 ?sd = ?se"
    using decay_ramp [of ?sd 100] f3 by simp
  have f4: "decay_timer ?se = 0" "attack_pwm_value ?se = 100"
    using f3 by (simp_all add: set_duty_cycle_fields)
  let ?sf = "buzzer_set_duty_cycle 1 ?se"
  have d6: "decay 399 ?se = ?sf"
    using decay_ramp [of ?se 399] f4 by simp
  have f5: "decay_timer ?sf = 0"
    using f4 by (simp_all add: set_duty_cycle_fields)
  have d7: "decay 400 ?sf = ?sf" and d8: "decay 401 ?sf = ?sf"
    using decay_idle [of ?sf] f5 by simp_all
  show ?thesis
    unfolding r r0 by (simp add: d0 d1 d2 d3 d4 d5 d6 d7 d8 Let_def set_duty_cycle_fields)
qed

lemma set_frequency_frame:
  "decay_timer (set_frequency c s) = decay_timer s
   \<and> chime_timer (set_frequency c s) = chime_timer s
   \<and> chime_note_duration (set_frequency c s) = chime_note_duration s
   \<and> attack_pwm_value (set_frequency c s) = attack_pwm_value s
   \<and> note_last (set_frequency c s) = note_last s
   \<and> note_duration_divider (set_frequency c s) = note_duration_divider s
   \<and> note_counter (set_frequency c s) = note_counter s
   \<and> OCR2B (set_frequency c s) = OCR2B s
   \<and> duty (set_frequency c s) = duty s
   \<and> random_calls (set_frequency c s) = random_calls s"
  by (simp add: set_frequency_def Let_def split: prod.splits)

text \<open>
  C9. \<open>play_note(n, v)\<close> leaves the prescaler and TOP registers (\<open>TCCR2B\<close>, \<open>OCR2A\<close>) and
  the stored prescaler bits as they are when \<open>n\<close> is the note played last or 0, and otherwise
  sets them as \<open>set_frequency\<close> does for the frequency of \<open>n\<close>. The duty cycle is set to 0 for
  \<open>n = 0\<close> (so the compare register \<open>OCR2B\<close> is 0) and to \<open>v\<close> otherwise, and the decay
  timestamp becomes the current time in every case.
\<close>

theorem play_note_frame:
  "((n = note_last s \<or> n = 0) \<longrightarrow>
       TCCR2B (play_note nc now n v s) = TCCR2B s
       \<and> OCR2A (play_note nc now n v s) = OCR2A s
       \<and> prescaler_bits (play_note nc now n v s) = prescaler_bits s)
   \<and> ((n \<noteq> note_last s \<and> n \<noteq> 0) \<longrightarrow>
       TCCR2B (play_note nc now n v s) = TCCR2B (set_frequency (nc n) s)
       \<and> OCR2A (play_note nc now n v s) = OCR2A (set_frequency (nc n) s)
       \<and> prescaler_bits (play_note nc now n v s) = prescaler_bits (set_frequency (nc n) s))
   \<and> duty (play_note nc now n v s) = (if n = 0 then 0 else v)
   \<and> attack_pwm_value (play_note nc now n v s) = (if n = 0 then 0 else v)
   \<and> OCR2B (play_note nc now n v s) =
       ucast (drop_bit 8 (ucast (OCR2A (play_note nc now n v s)) * ucast (if n = 0 then 0 else v) :: 16 word))
   \<and> (n = 0 \<longrightarrow> OCR2B (play_note nc now n v s) = 0)
   \<and> decay_timer (play_note nc now n v s) = now
   \<and> note_last (play_note nc now n v s) = n"
  by (simp add: play_note_def buzzer_set_duty_cycle_def Let_def)

text \<open>
  The note 69 played twice and then silence, from the zero state, with 1000 timer cycles for
  the note: the first call selects the prescaler 8 and the TOP value 125, the others change
  neither.
\<close>

theorem play_note_frame_witness:
  "TCCR2B (play_note (\<lambda>_. 1000) 5 69 100 buzzer_zero) = 10
   \<and> OCR2A (play_note (\<lambda>_. 1000) 5 69 100 buzzer_zero) = 125
   \<and> TCCR2B (play_note (\<lambda>_. 1000) 6 69 50 (play_note (\<lambda>_. 1000) 5 69 100 buzzer_zero)) = 10
   \<and> OCR2A (play_note (\<lambda>_. 1000) 6 69 50 (play_note (\<lambda>_. 1000) 5 69 100 buzzer_zero)) = 125
   \<and> duty (play_note (\<lambda>_. 1000) 6 69 50 (play_note (\<lambda>_. 1000) 5 69 100 buzzer_zero)) = 50
   \<and> TCCR2B (play_note (\<lambda>_. 1000) 7 0 50 (play_note (\<lambda>_. 1000) 5 69 100 buzzer_zero)) = 10
   \<and> OCR2B (play_note (\<lambda>_. 1000) 7 0 50 (play_note (\<lambda>_. 1000) 5 69 100 buzzer_zero)) = 0
   \<and> decay_timer (play_note (\<lambda>_. 1000) 7 0 50 (play_note (\<lambda>_. 1000) 5 69 100 buzzer_zero)) = 7"
proof -
  let ?s1 = "play_note (\<lambda>_. 1000) 5 69 100 buzzer_zero"
  have z: "note_last buzzer_zero = 0"
    by (simp add: buzzer_zero_def)
  have f: "TCCR2B (set_frequency 1000 buzzer_zero) = 10" "OCR2A (set_frequency 1000 buzzer_zero) = 125"
    by (simp_all add: set_frequency_def buzzer_zero_def RESOLUTION_def PRESCALER_8_def BV_def
        CS21_def WGM22_def Let_def)
  have first: "TCCR2B ?s1 = 10" "OCR2A ?s1 = 125" "note_last ?s1 = 69"
    using play_note_frame [of 69 buzzer_zero "\<lambda>_. 1000" 5 100] z f by simp_all
  have again: "TCCR2B (play_note (\<lambda>_. 1000) 6 69 50 ?s1) = 10"
    "OCR2A (play_note (\<lambda>_. 1000) 6 69 50 ?s1) = 125" "duty (play_note (\<lambda>_. 1000) 6 69 50 ?s1) = 50"
    using play_note_frame [of 69 ?s1 "\<lambda>_. 1000" 6 50] first by simp_all
  have silence: "TCCR2B (play_note (\<lambda>_. 1000) 7 0 50 ?s1) = 10"
    "OCR2B (play_note (\<lambda>_. 1000) 7 0 50 ?s1) = 0" "decay_timer (play_note (\<lambda>_. 1000) 7 0 50 ?s1) = 7"
    using play_note_frame [of 0 ?s1 "\<lambda>_. 1000" 7 50] first by simp_all
  from first again silence show ?thesis
    by (intro conjI)
qed

lemma play_note_chime_frame:
  "chime_timer (play_note nc now n v s) = chime_timer s
   \<and> chime_note_duration (play_note nc now n v s) = chime_note_duration s
   \<and> note_duration_divider (play_note nc now n v s) = note_duration_divider s
   \<and> note_counter (play_note nc now n v s) = note_counter s
   \<and> random_calls (play_note nc now n v s) = random_calls s"
  by (simp add: play_note_def buzzer_set_duty_cycle_def set_frequency_frame Let_def)

text \<open>
  What the new-note block does to the sequencer: two random draws for the note, and a third
  one for a new divisor when the incremented note counter exceeds the current divisor.
\<close>

lemma chime_new_note_step:
  "chime_timer (chime_new_note rnd nc t t' s) = t
   \<and> note_counter (chime_new_note rnd nc t t' s) =
       (if note_counter s + 1 > note_duration_divider s then 0 else note_counter s + 1)
   \<and> note_duration_divider (chime_new_note rnd nc t t' s) =
       (if note_counter s + 1 > note_duration_divider s
        then NOTE_DURATION_DIVIDERS ! (rnd (random_calls s + 2) mod 6)
        else note_duration_divider s)
   \<and> chime_note_duration (chime_new_note rnd nc t t' s) =
       (if note_counter s + 1 > note_duration_divider s
        then float_to_u16 (fl32 (fl32 (60000 / ALARM_CHIME_BPM)
               / rat_of_nat (unat (NOTE_DURATION_DIVIDERS ! (rnd (random_calls s + 2) mod 6)))))
        else chime_note_duration s)
   \<and> random_calls (chime_new_note rnd nc t t' s) =
       random_calls s + (if note_counter s + 1 > note_duration_divider s then 3 else 2)"
  by (simp add: chime_new_note_def random_def play_note_chime_frame NOTE_DURATION_DIVIDERS_N_def
      Let_def split: prod.splits)

lemma divider_from_table:
  "NOTE_DURATION_DIVIDERS ! (r mod 6) \<in> set NOTE_DURATION_DIVIDERS"
  by (rule nth_mem) (simp add: NOTE_DURATION_DIVIDERS_def)

lemma divider_values: "set NOTE_DURATION_DIVIDERS = {1, 2, 4, 8}"
  by (auto simp: NOTE_DURATION_DIVIDERS_def)

lemma note_durations:
  "float_to_u16 (fl32 (fl32 (60000 / ALARM_CHIME_BPM) / rat_of_nat (unat (1 :: 8 word)))) = 666"
  "float_to_u16 (fl32 (fl32 (60000 / ALARM_CHIME_BPM) / rat_of_nat (unat (2 :: 8 word)))) = 333"
  "float_to_u16 (fl32 (fl32 (60000 / ALARM_CHIME_BPM) / rat_of_nat (unat (4 :: 8 word)))) = 166"
  "float_to_u16 (fl32 (fl32 (60000 / ALARM_CHIME_BPM) / rat_of_nat (unat (8 :: 8 word)))) = 83"
  by (simp_all add: ALARM_CHIME_BPM_def fl32_eval)

text \<open>As long as fewer notes than the divisor have been played since a draw, none is redrawn.\<close>

lemma new_notes_count:
  assumes "note_counter s = 0" and "unat (note_duration_divider s) \<le> 8"
    and "length ts \<le> unat (note_duration_divider s)"
  shows "note_counter (new_notes rnd nc ts s) = of_nat (length ts)
         \<and> note_duration_divider (new_notes rnd nc ts s) = note_duration_divider s
         \<and> chime_note_duration (new_notes rnd nc ts s) = chime_note_duration s
         \<and> random_calls (new_notes rnd nc ts s) = random_calls s + 2 * length ts"
proof -
  have gen: "note_counter s = of_nat k \<Longrightarrow> k + length ts \<le> unat (note_duration_divider s)
      \<Longrightarrow> unat (note_duration_divider s) \<le> 8
      \<Longrightarrow> note_counter (new_notes rnd nc ts s) = of_nat (k + length ts)
         \<and> note_duration_divider (new_notes rnd nc ts s) = note_duration_divider s
         \<and> chime_note_duration (new_notes rnd nc ts s) = chime_note_duration s
         \<and> random_calls (new_notes rnd nc ts s) = random_calls s + 2 * length ts" for k s
  proof (induction ts arbitrary: k s)
    case Nil
    then show ?case by simp
  next
    case (Cons c ts)
    obtain t t' where c: "c = (t, t')" by (cases c) auto
    let ?s1 = "chime_new_note rnd nc t t' s"
    note d8 = Cons.prems(3)
    have k: "k < unat (note_duration_divider s)"
      using Cons.prems(2) by simp
    have cnt: "unat (note_counter s) = k"
      using Cons.prems(1) k d8 by (simp add: unat_of_nat take_bit_nat_eq_self)
    have no: "\<not> note_counter s + 1 > note_duration_divider s"
      using cnt k d8 by unat_arith
    have step: "note_counter ?s1 = of_nat (Suc k)" "note_duration_divider ?s1 = note_duration_divider s"
      "chime_note_duration ?s1 = chime_note_duration s" "random_calls ?s1 = random_calls s + 2"
      using chime_new_note_step [of rnd nc t t' s] no Cons.prems(1) by simp_all
    have len: "Suc k + length ts \<le> unat (note_duration_divider ?s1)"
      using Cons.prems(2) step(2) by simp
    have d8': "unat (note_duration_divider ?s1) \<le> 8"
      using d8 step(2) by simp
    from Cons.IH [OF step(1) len d8'] step show ?case
      by (simp add: c)
  qed
  from gen [of s 0] assms show ?thesis by simp
qed

lemma play_chime_cases:
  "play_chime rnd nc now now' s =
     (let s0 = (if chime_timer s > now then s\<lparr>chime_timer := now\<rparr> else s)
      in if now - chime_timer s0 \<ge> ucast (chime_note_duration s)
         then chime_new_note rnd nc now now' s0 else s0)"
  by (simp add: play_chime_def Let_def)

text \<open>
  C7, as amended. \<open>play_chime\<close> plays a note only when the note duration has elapsed. Every
  divisor drawn is an element of the table \<open>{1, 2, 2, 2, 4, 8}\<close>, and the note duration stored
  with it is the single-precision \<open>60000 / 90 / divisor\<close> truncated (666, 333, 166 or 83 ms).
  A divisor is drawn when the count of notes played since the last draw exceeds the current
  divisor: after a draw of \<open>d\<close> the next \<open>d\<close> notes keep it, using two random numbers each,
  and the note after them draws again. So the draws are \<open>d + 1\<close> notes apart (2, 3, 5 or 9),
  not 16.
\<close>

theorem chime_divider_redraw:
  assumes "note_counter s = 0" and "note_duration_divider s \<in> set NOTE_DURATION_DIVIDERS"
    and "length ts = unat (note_duration_divider s)"
  shows "note_counter (new_notes rnd nc ts s) = note_duration_divider s
         \<and> note_duration_divider (new_notes rnd nc ts s) = note_duration_divider s
         \<and> chime_note_duration (new_notes rnd nc ts s) = chime_note_duration s
         \<and> random_calls (new_notes rnd nc ts s) = random_calls s + 2 * length ts
         \<and> note_counter (chime_new_note rnd nc t t' (new_notes rnd nc ts s)) = 0
         \<and> random_calls (chime_new_note rnd nc t t' (new_notes rnd nc ts s))
             = random_calls s + 2 * length ts + 3
         \<and> note_duration_divider (chime_new_note rnd nc t t' (new_notes rnd nc ts s))
             = NOTE_DURATION_DIVIDERS ! (rnd (random_calls s + 2 * length ts + 2) mod 6)
         \<and> note_duration_divider (chime_new_note rnd nc t t' (new_notes rnd nc ts s))
             \<in> set NOTE_DURATION_DIVIDERS
         \<and> chime_note_duration (chime_new_note rnd nc t t' (new_notes rnd nc ts s))
             = (if note_duration_divider (chime_new_note rnd nc t t' (new_notes rnd nc ts s)) = 1 then 666
                else if note_duration_divider (chime_new_note rnd nc t t' (new_notes rnd nc ts s)) = 2 then 333
                else if note_duration_divider (chime_new_note rnd nc t t' (new_notes rnd nc ts s)) = 4 then 166
                else 83)"
proof -
  let ?s1 = "new_notes rnd nc ts s"
  let ?s2 = "chime_new_note rnd nc t t' ?s1"
  let ?d = "NOTE_DURATION_DIVIDERS ! (rnd (random_calls s + 2 * length ts + 2) mod 6)"
  from assms(2) have dv: "note_duration_divider s = 1 \<or> note_duration_divider s = 2
      \<or> note_duration_divider s = 4 \<or> note_duration_divider s = 8"
    by (simp add: divider_values)
  then have d8: "unat (note_duration_divider s) \<le> 8"
    by auto
  from new_notes_count [OF assms(1) d8, of ts rnd nc] assms(3)
  have s1: "note_counter ?s1 = of_nat (unat (note_duration_divider s))"
    "note_duration_divider ?s1 = note_duration_divider s"
    "chime_note_duration ?s1 = chime_note_duration s"
    "random_calls ?s1 = random_calls s + 2 * length ts"
    by simp_all
  then have cnt: "note_counter ?s1 = note_duration_divider s"
    by simp
  have over: "note_counter ?s1 + 1 > note_duration_divider ?s1"
    unfolding cnt s1(2) using dv by auto
  from chime_new_note_step [of rnd nc t t' ?s1] over s1(4)
  have s2: "note_counter ?s2 = 0" "note_duration_divider ?s2 = ?d"
    "chime_note_duration ?s2 = float_to_u16 (fl32 (fl32 (60000 / ALARM_CHIME_BPM) / rat_of_nat (unat ?d)))"
    "random_calls ?s2 = random_calls s + 2 * length ts + 3"
    by simp_all
  have mem: "?d \<in> set NOTE_DURATION_DIVIDERS"
    by (rule divider_from_table)
  then have "?d = 1 \<or> ?d = 2 \<or> ?d = 4 \<or> ?d = 8"
    by (simp add: divider_values)
  then have dur: "float_to_u16 (fl32 (fl32 (60000 / ALARM_CHIME_BPM) / rat_of_nat (unat ?d)))
      = (if ?d = 1 then 666 else if ?d = 2 then 333 else if ?d = 4 then 166 else 83)"
    using note_durations by (elim disjE) simp_all
  show ?thesis
    using cnt s1(2,3,4) s2(1,4) mem dur unfolding s2(2) s2(3)
    by (intro conjI) simp_all
qed

text \<open>
  From the zero state the first note draws; with the random numbers all 4 the divisor drawn
  is 4 (note duration 166 ms), the next four notes keep it and the fifth draws again.
\<close>

theorem chime_divider_redraw_witness:
  "note_counter (chime_new_note (\<lambda>_. 4) (\<lambda>_. 1000) 1000 1000 buzzer_zero) = 0
   \<and> note_duration_divider (chime_new_note (\<lambda>_. 4) (\<lambda>_. 1000) 1000 1000 buzzer_zero) = 4
   \<and> chime_note_duration (chime_new_note (\<lambda>_. 4) (\<lambda>_. 1000) 1000 1000 buzzer_zero) = 166
   \<and> note_counter (new_notes (\<lambda>_. 4) (\<lambda>_. 1000) [(2000, 2000), (3000, 3000), (4000, 4000), (5000, 5000)]
        (chime_new_note (\<lambda>_. 4) (\<lambda>_. 1000) 1000 1000 buzzer_zero)) = 4
   \<and> random_calls (new_notes (\<lambda>_. 4) (\<lambda>_. 1000) [(2000, 2000), (3000, 3000), (4000, 4000), (5000, 5000)]
        (chime_new_note (\<lambda>_. 4) (\<lambda>_. 1000) 1000 1000 buzzer_zero)) = 11
   \<and> note_counter (chime_new_note (\<lambda>_. 4) (\<lambda>_. 1000) 6000 6000
        (new_notes (\<lambda>_. 4) (\<lambda>_. 1000) [(2000, 2000), (3000, 3000), (4000, 4000), (5000, 5000)]
          (chime_new_note (\<lambda>_. 4) (\<lambda>_. 1000) 1000 1000 buzzer_zero))) = 0
   \<and> random_calls (chime_new_note (\<lambda>_. 4) (\<lambda>_. 1000) 6000 6000
        (new_notes (\<lambda>_. 4) (\<lambda>_. 1000) [(2000, 2000), (3000, 3000), (4000, 4000), (5000, 5000)]
          (chime_new_note (\<lambda>_. 4) (\<lambda>_. 1000) 1000 1000 buzzer_zero))) = 14"
proof -
  let ?s = "chime_new_note (\<lambda>_. 4) (\<lambda>_. 1000) 1000 1000 buzzer_zero"
  let ?ts = "[(2000, 2000), (3000, 3000), (4000, 4000), (5000, 5000)] :: (64 word \<times> 64 word) list"
  have z: "note_counter buzzer_zero = 0" "note_duration_divider buzzer_zero = 0"
    "random_calls buzzer_zero = 0"
    by (simp_all add: buzzer_zero_def)
  have s: "note_counter ?s = 0" "note_duration_divider ?s = 4" "chime_note_duration ?s = 166"
    "random_calls ?s = 3"
    using chime_new_note_step [of "\<lambda>_. 4" "\<lambda>_. 1000" 1000 1000 buzzer_zero] z note_durations(3)
    by (simp_all add: NOTE_DURATION_DIVIDERS_def)
  have m: "note_duration_divider ?s \<in> set NOTE_DURATION_DIVIDERS"
    using s(2) by (simp add: divider_values)
  have l: "length ?ts = unat (note_duration_divider ?s)"
    using s(2) by simp
  note r = chime_divider_redraw [OF s(1) m l, of "\<lambda>_. 4" "\<lambda>_. 1000" 6000 6000]
  have r1: "note_counter (new_notes (\<lambda>_. 4) (\<lambda>_. 1000) ?ts ?s) = 4"
    using r s(2) by simp
  have r2: "random_calls (new_notes (\<lambda>_. 4) (\<lambda>_. 1000) ?ts ?s) = 11"
    using r s(4) by simp
  have r3: "note_counter (chime_new_note (\<lambda>_. 4) (\<lambda>_. 1000) 6000 6000 (new_notes (\<lambda>_. 4) (\<lambda>_. 1000) ?ts ?s)) = 0"
    using r by simp
  have r4: "random_calls (chime_new_note (\<lambda>_. 4) (\<lambda>_. 1000) 6000 6000 (new_notes (\<lambda>_. 4) (\<lambda>_. 1000) ?ts ?s)) = 14"
    using r s(4) by simp
  from s(1,2,3) r1 r2 r3 r4 show ?thesis
    by (intro conjI)
qed

text \<open>
  The claim as stated fails: with the divisor 1 drawn each time (random numbers all 0), five
  calls of \<open>play_chime\<close> one second apart play five notes, and the first, the third and the
  fifth draw a divisor (they use three random numbers, the others two).
\<close>

theorem chime_divider_counterexample:
  "map note_counter (chime_run (\<lambda>_. 0) (\<lambda>_. 1000)
      [(1000, 1000), (2000, 2000), (3000, 3000), (4000, 4000), (5000, 5000)] buzzer_zero) = [0, 1, 0, 1, 0]
   \<and> map random_calls (chime_run (\<lambda>_. 0) (\<lambda>_. 1000)
      [(1000, 1000), (2000, 2000), (3000, 3000), (4000, 4000), (5000, 5000)] buzzer_zero) = [3, 5, 8, 10, 13]
   \<and> map note_duration_divider (chime_run (\<lambda>_. 0) (\<lambda>_. 1000)
      [(1000, 1000), (2000, 2000), (3000, 3000), (4000, 4000), (5000, 5000)] buzzer_zero) = [1, 1, 1, 1, 1]"
proof -
  define s0 where "s0 = buzzer_zero"
  define s1 where "s1 = play_chime (\<lambda>_. 0) (\<lambda>_. 1000) 1000 1000 s0"
  define s2 where "s2 = play_chime (\<lambda>_. 0) (\<lambda>_. 1000) 2000 2000 s1"
  define s3 where "s3 = play_chime (\<lambda>_. 0) (\<lambda>_. 1000) 3000 3000 s2"
  define s4 where "s4 = play_chime (\<lambda>_. 0) (\<lambda>_. 1000) 4000 4000 s3"
  define s5 where "s5 = play_chime (\<lambda>_. 0) (\<lambda>_. 1000) 5000 5000 s4"
  have f0: "chime_timer s0 = 0" "chime_note_duration s0 = 0" "note_counter s0 = 0"
    "note_duration_divider s0 = 0" "random_calls s0 = 0"
    by (simp_all add: s0_def buzzer_zero_def)
  have e1: "s1 = chime_new_note (\<lambda>_. 0) (\<lambda>_. 1000) 1000 1000 s0"
    unfolding s1_def play_chime_cases using f0 by simp
  have f1: "chime_timer s1 = 1000" "chime_note_duration s1 = 666" "note_counter s1 = 0"
    "note_duration_divider s1 = 1" "random_calls s1 = 3"
    unfolding e1 using chime_new_note_step [of "\<lambda>_. 0" "\<lambda>_. 1000" 1000 1000 s0] f0 note_durations(1)
    by (simp_all add: NOTE_DURATION_DIVIDERS_def)
  have e2: "s2 = chime_new_note (\<lambda>_. 0) (\<lambda>_. 1000) 2000 2000 s1"
    unfolding s2_def play_chime_cases using f1 by simp
  have f2: "chime_timer s2 = 2000" "chime_note_duration s2 = 666" "note_counter s2 = 1"
    "note_duration_divider s2 = 1" "random_calls s2 = 5"
    unfolding e2 using chime_new_note_step [of "\<lambda>_. 0" "\<lambda>_. 1000" 2000 2000 s1] f1
    by simp_all
  have e3: "s3 = chime_new_note (\<lambda>_. 0) (\<lambda>_. 1000) 3000 3000 s2"
    unfolding s3_def play_chime_cases using f2 by simp
  have f3: "chime_timer s3 = 3000" "chime_note_duration s3 = 666" "note_counter s3 = 0"
    "note_duration_divider s3 = 1" "random_calls s3 = 8"
    unfolding e3 using chime_new_note_step [of "\<lambda>_. 0" "\<lambda>_. 1000" 3000 3000 s2] f2 note_durations(1)
    by (simp_all add: NOTE_DURATION_DIVIDERS_def)
  have e4: "s4 = chime_new_note (\<lambda>_. 0) (\<lambda>_. 1000) 4000 4000 s3"
    unfolding s4_def play_chime_cases using f3 by simp
  have f4: "chime_timer s4 = 4000" "chime_note_duration s4 = 666" "note_counter s4 = 1"
    "note_duration_divider s4 = 1" "random_calls s4 = 10"
    unfolding e4 using chime_new_note_step [of "\<lambda>_. 0" "\<lambda>_. 1000" 4000 4000 s3] f3
    by simp_all
  have e5: "s5 = chime_new_note (\<lambda>_. 0) (\<lambda>_. 1000) 5000 5000 s4"
    unfolding s5_def play_chime_cases using f4 by simp
  have f5: "note_counter s5 = 0" "note_duration_divider s5 = 1" "random_calls s5 = 13"
    unfolding e5 using chime_new_note_step [of "\<lambda>_. 0" "\<lambda>_. 1000" 5000 5000 s4] f4
    by (simp_all add: NOTE_DURATION_DIVIDERS_def)
  have run: "chime_run (\<lambda>_. 0) (\<lambda>_. 1000)
      [(1000, 1000), (2000, 2000), (3000, 3000), (4000, 4000), (5000, 5000)] buzzer_zero = [s1, s2, s3, s4, s5]"
    by (simp add: Let_def s0_def s1_def s2_def s3_def s4_def s5_def)
  show ?thesis
    unfolding run using f1 f2 f3 f4 f5 by simp
qed

lemma play_chime_timer:
  "chime_timer (play_chime rnd nc now now' s) =
     (if chime_timer s > now then now
      else if now - chime_timer s \<ge> ucast (chime_note_duration s) then now else chime_timer s)"
  using chime_new_note_step [of rnd nc now now']
  by (simp add: play_chime_cases Let_def)

lemma wrapped_difference:
  assumes "now < ts" and "ts < 2 ^ 32"
  shows "(now :: 64 word) - ts > 1000"
proof -
  from assms have "unat now < unat ts" and "unat ts < 2 ^ 32"
    by (simp_all add: word_less_nat_alt)
  then have "unat (now - ts) = 2 ^ 64 + unat now - unat ts"
    by (simp add: unat_sub_if_size word_size)
  with \<open>unat ts < 2 ^ 32\<close> show ?thesis
    by (simp add: word_less_nat_alt)
qed

text \<open>
  C8, as amended. When the stored timestamp is greater than the current time, \<open>decay\<close> and
  \<open>play_chime\<close> set it to the current time before they compare the elapsed time: \<open>decay\<close> then
  writes the full attack value, \<open>play_chime\<close> plays no note unless the note duration is 0.
  \<open>regulate\<close> does not: it keeps its start time, and the 64-bit difference, which wraps, is
  greater than the ramp time for every start time below \<open>2^32\<close>, so the ramped setpoint is the
  target.
\<close>

theorem clock_wrap:
  "(decay_timer b > now \<longrightarrow>
      decay_timer (decay now b) = now \<and> duty (decay now b) = attack_pwm_value b)
   \<and> (chime_timer b > now \<longrightarrow> chime_timer (play_chime rnd nc now now' b) = now)
   \<and> (chime_timer b > now \<and> chime_note_duration b \<noteq> 0 \<longrightarrow>
      play_chime rnd nc now now' b = b\<lparr>chime_timer := now\<rparr>)
   \<and> (time_started p > now \<longrightarrow> time_started (regulate f_cpu adc now us p) = time_started p)
   \<and> (time_started p > now \<and> time_started p < 2 ^ 32 \<longrightarrow>
      setpoint_temp (regulate f_cpu adc now us p) = setpoint p)"
proof -
  have d: "decay_timer (decay now b) = now \<and> duty (decay now b) = attack_pwm_value b"
    if "decay_timer b > now"
    unfolding decay_resync [OF that] by (simp add: set_duty_cycle_fields)
  have c: "chime_timer (play_chime rnd nc now now' b) = now" if "chime_timer b > now"
    using that by (simp add: play_chime_timer)
  have c': "play_chime rnd nc now now' b = b\<lparr>chime_timer := now\<rparr>"
    if "chime_timer b > now" "chime_note_duration b \<noteq> 0"
  proof -
    have "unat (chime_note_duration b) < 2 ^ 16"
      using unsigned_less [of "chime_note_duration b", where ?'a = nat] by simp
    then have "unat (chime_note_duration b) < 2 ^ 64"
      by (rule less_trans) simp
    then have "unat (ucast (chime_note_duration b) :: 64 word) = unat (chime_note_duration b)"
      by (simp add: unsigned_ucast_eq take_bit_nat_eq_self)
    with that(2) have "unat (ucast (chime_note_duration b) :: 64 word) \<noteq> 0"
      by (simp add: unat_0_iff)
    then have "\<not> ucast (chime_note_duration b) \<le> (0 :: 64 word)"
      by (simp add: unat_0_iff)
    with that(1) show ?thesis
      by (simp add: play_chime_cases)
  qed
  have r: "time_started (regulate f_cpu adc now us p) = time_started p" if "time_started p > now"
  proof -
    from that have "time_started p \<noteq> 0" by auto
    then show ?thesis by (simp add: regulate_time_started)
  qed
  have r': "setpoint_temp (regulate f_cpu adc now us p) = setpoint p"
    if "time_started p > now" "time_started p < 2 ^ 32"
  proof -
    from that(1) have "time_started p \<noteq> 0" by auto
    with wrapped_difference [OF that] show ?thesis
      by (simp add: regulate_setpoint_temp)
  qed
  from d c c' r r' show ?thesis
    by blast
qed

text \<open>
  A note decaying since the reading 500, a chime note due 666 ms after 500, and a soft start
  begun at 500, each called at the reading 100.
\<close>

theorem clock_wrap_witness:
  "decay_timer (decay 100 (buzzer_zero\<lparr>decay_timer := 500, attack_pwm_value := 100\<rparr>)) = 100
   \<and> duty (decay 100 (buzzer_zero\<lparr>decay_timer := 500, attack_pwm_value := 100\<rparr>)) = 100
   \<and> play_chime (\<lambda>_. 0) (\<lambda>_. 1000) 100 100 (buzzer_zero\<lparr>chime_timer := 500, chime_note_duration := 666\<rparr>)
       = buzzer_zero\<lparr>chime_timer := 100, chime_note_duration := 666\<rparr>
   \<and> time_started (regulate 16000000 512 100 8 ((set_voltage 180 (power_init 16000000))\<lparr>time_started := 500\<rparr>)) = 500
   \<and> setpoint_temp (regulate 16000000 512 100 8 ((set_voltage 180 (power_init 16000000))\<lparr>time_started := 500\<rparr>)) = 180"
  using clock_wrap [of 100 "buzzer_zero\<lparr>decay_timer := 500, attack_pwm_value := 100\<rparr>"]
    clock_wrap [of 100 "buzzer_zero\<lparr>chime_timer := 500, chime_note_duration := 666\<rparr>" "\<lambda>_. 0" "\<lambda>_. 1000" 100]
    clock_wrap [of 100 _ _ _ _ "(set_voltage 180 (power_init 16000000))\<lparr>time_started := 500\<rparr>" 16000000 512 8]
  by (simp add: buzzer_zero_def set_voltage_def power_init_def power_set_duty_cycle_def)

text \<open>
  The claim as stated fails for \<open>regulate\<close>: after a first call at the clock reading 500, a
  call at the reading 100 finds the stored start time greater than the current time and
  leaves it at 500.
\<close>

theorem clock_wrap_counterexample:
  "time_started (regulate 16000000 512 500 7 (set_voltage 180 (power_init 16000000))) = 500
   \<and> (100 :: 64 word) < 500
   \<and> time_started (regulate 16000000 512 100 8
        (regulate 16000000 512 500 7 (set_voltage 180 (power_init 16000000)))) = 500"
  by (simp add: regulate_time_started set_voltage_def power_init_def power_set_duty_cycle_def)

end
